theory Spec2Isabelle
  imports Main "HOL-Library.Stream" "HOL-Library.Signed_Division"
begin

section \<open>Common ground: run-time panics, grids, the random source\<close>

text \<open>
  Both engines are Go packages. A Go slice access out of range panics; the model makes that
  a value: every function that indexes a slice returns \<open>error + 'a\<close>, with \<open>Inl\<close> the
  panic.
\<close>

datatype error = IndexOutOfRange

text \<open>
  Go's \<open>int\<close> is a two's-complement machine integer, 64 bits wide on a 64-bit platform,
  and its arithmetic wraps around without a panic. The fields of the engines are modelled
  by \<open>int\<close>, and \<open>wrapInt\<close> is the reduction of a mathematical result to the 64-bit
  range. The counters that grow for as long as a game lasts (\<open>score\<close>, \<open>lines\<close>,
  \<open>level\<close> in Tetris, \<open>score\<close> and \<open>length\<close> in Snake) are updated through
  \<open>wrapInt\<close>. Coordinates are not: a position is kept only when \<open>collides\<close> has
  compared it with the board, and coordinate arithmetic would wrap only at a position
  within a few cells of the 64-bit limits.
\<close>

definition wrapInt :: "int \<Rightarrow> int" where
  "wrapInt i = (i + 2 ^ 63) mod 2 ^ 64 - 2 ^ 63"

text \<open>The values an \<open>int\<close> of Go can hold.\<close>

definition inInt :: "int \<Rightarrow> bool" where
  "inInt i \<longleftrightarrow> - (2 ^ 63) \<le> i \<and> i < 2 ^ 63"

text \<open>Sequencing of fallible steps: a panic aborts everything after it.\<close>

definition bindE :: "error + 'a \<Rightarrow> ('a \<Rightarrow> error + 'b) \<Rightarrow> error + 'b" where
  "bindE m f = (case m of Inl e \<Rightarrow> Inl e | Inr v \<Rightarrow> f v)"

text \<open>\<open>xs[i]\<close> on a slice.\<close>

definition idx :: "'a list \<Rightarrow> int \<Rightarrow> error + 'a" where
  "idx xs i = (if 0 \<le> i \<and> i < int (length xs) then Inr (xs ! nat i) else Inl IndexOutOfRange)"

type_synonym grid = "int list list"

text \<open>\<open>b[y][x]\<close> as Go evaluates it: first the row, then the cell, each access checked.\<close>

definition gridGet :: "grid \<Rightarrow> int \<Rightarrow> int \<Rightarrow> error + int" where
  "gridGet b y x =
     (if 0 \<le> y \<and> y < int (length b) then
        (if 0 \<le> x \<and> x < int (length (b ! nat y)) then Inr (b ! nat y ! nat x)
         else Inl IndexOutOfRange)
      else Inl IndexOutOfRange)"

text \<open>\<open>b[y][x] = v\<close>: one cell of row \<open>y\<close> is replaced, with the same checks.\<close>

definition gridSet :: "grid \<Rightarrow> int \<Rightarrow> int \<Rightarrow> int \<Rightarrow> error + grid" where
  "gridSet b y x v =
     (if 0 \<le> y \<and> y < int (length b) then
        (if 0 \<le> x \<and> x < int (length (b ! nat y))
         then Inr (b[nat y := (b ! nat y)[nat x := v]])
         else Inl IndexOutOfRange)
      else Inl IndexOutOfRange)"

text \<open>
  The random source. Both engines call only \<open>Intn(n)\<close>, which returns a value in
  \<open>[0, n)\<close> and advances the generator. The generator is a stream of raw draws; \<open>Intn n\<close>
  reduces the next raw draw modulo \<open>n\<close>, so every sequence of results a real source can
  produce is produced by some stream.
\<close>

type_synonym rng = "nat stream"

definition Intn :: "rng \<Rightarrow> nat \<Rightarrow> nat \<times> rng" where
  "Intn r n = (shd r mod n, stl r)"

section \<open>Tetris engine (tetris/game.go)\<close>

definition BoardWidth :: int where "BoardWidth = 10"
definition BoardHeight :: int where "BoardHeight = 20"

definition Shapes :: "int list list list" where
  "Shapes =
    [[[1, 1, 1, 1]],
     [[1, 1], [1, 1]],
     [[0, 1, 0], [1, 1, 1]],
     [[0, 1, 1], [1, 1, 0]],
     [[1, 1, 0], [0, 1, 1]],
     [[1, 0, 0], [1, 1, 1]],
     [[0, 0, 1], [1, 1, 1]]]"

record game =
  board :: grid
  currPiece :: int
  currShape :: "int list list"
  nextPiece :: int
  pieceX :: int
  pieceY :: int
  score :: int
  lines :: int
  level :: int
  paused :: bool
  gameOver :: bool
  rng :: rng

text \<open>The board a game is created with: \<open>BoardHeight\<close> rows of \<open>BoardWidth\<close> cells.
  No operation changes these dimensions.\<close>

definition wf_board :: "grid \<Rightarrow> bool" where
  "wf_board b \<longleftrightarrow> int (length b) = BoardHeight \<and> (\<forall>r \<in> set b. int (length r) = BoardWidth)"

text \<open>\<open>NewGame\<close>; the fields it does not mention take Go's zero values. The source
  installs the standard generator; here the generator is a parameter.\<close>

definition NewGame :: "rng \<Rightarrow> game" where
  "NewGame r =
     \<lparr>board = replicate (nat BoardHeight) (replicate (nat BoardWidth) 0),
      currPiece = 0, currShape = [], nextPiece = 0,
      pieceX = BoardWidth div 2 - 1, pieceY = 0,
      score = 0, lines = 0, level = 1, paused = False, gameOver = False, rng = r\<rparr>"

subsection \<open>collides\<close>

text \<open>The body of the inner loop of \<open>collides\<close> for one filled cell, at board position
  \<open>(boardX, boardY)\<close>: \<open>Inr True\<close> is the early \<open>return true\<close>.\<close>

definition collidesCell :: "grid \<Rightarrow> int \<Rightarrow> int \<Rightarrow> error + bool" where
  "collidesCell b boardX boardY =
     (if boardX < 0 \<or> boardX \<ge> BoardWidth \<or> boardY \<ge> BoardHeight then Inr True
      else if boardY \<ge> 0 then bindE (gridGet b boardY boardX) (\<lambda>v. Inr (v \<noteq> 0))
      else Inr False)"

text \<open>\<open>for x, cell := range row\<close>, from column \<open>x\<close> on.\<close>

fun collidesRow :: "grid \<Rightarrow> int \<Rightarrow> int \<Rightarrow> nat \<Rightarrow> nat \<Rightarrow> int list \<Rightarrow> error + bool" where
  "collidesRow b px py y x [] = Inr False"
| "collidesRow b px py y x (cell # cells) =
     (if cell = 1 then
        bindE (collidesCell b (px + int x) (py + int y))
          (\<lambda>hit. if hit then Inr True else collidesRow b px py y (Suc x) cells)
      else collidesRow b px py y (Suc x) cells)"

text \<open>\<open>for y, row := range g.currShape\<close>, from row \<open>y\<close> on.\<close>

fun collidesRows :: "grid \<Rightarrow> int \<Rightarrow> int \<Rightarrow> nat \<Rightarrow> int list list \<Rightarrow> error + bool" where
  "collidesRows b px py y [] = Inr False"
| "collidesRows b px py y (row # rows) =
     bindE (collidesRow b px py y 0 row)
       (\<lambda>hit. if hit then Inr True else collidesRows b px py (Suc y) rows)"

definition collides :: "game \<Rightarrow> error + bool" where
  "collides g = collidesRows (board g) (pieceX g) (pieceY g) 0 (currShape g)"

text \<open>The condition \<open>collides\<close> decides, as a predicate on a shape placed at \<open>(px, py)\<close>
  (used to state properties; \<open>collides\<close> itself is the function above).\<close>

definition collidesAt :: "grid \<Rightarrow> int list list \<Rightarrow> int \<Rightarrow> int \<Rightarrow> bool" where
  "collidesAt b s px py \<longleftrightarrow>
     (\<exists>y < length s. \<exists>x < length (s ! y). s ! y ! x = 1 \<and>
        (px + int x < 0 \<or> BoardWidth \<le> px + int x \<or> BoardHeight \<le> py + int y \<or>
         (0 \<le> py + int y \<and> b ! nat (py + int y) ! nat (px + int x) \<noteq> 0)))"


subsection \<open>spawnPiece\<close>

text \<open>\<open>BoardWidth/2\<close> and \<open>len(...)/2\<close> divide non-negative numbers, where Go's
  truncating division and \<open>div\<close> agree.\<close>

definition spawnPiece :: "game \<Rightarrow> error + game" where
  "spawnPiece g =
     (let (cp, r1) = (if nextPiece g = 0
                      then (let (n, r) = Intn (rng g) (length Shapes) in (int n, r))
                      else (nextPiece g - 1, rng g))
      in bindE (idx Shapes cp) (\<lambda>shape.
         bindE (idx shape 0) (\<lambda>row0.
           let (np, r2) = Intn r1 (length Shapes);
               g1 = g\<lparr>currPiece := cp, currShape := shape,
                      pieceX := BoardWidth div 2 - int (length row0 div 2), pieceY := 0,
                      nextPiece := int np + 1, rng := r2\<rparr>
           in bindE (collides g1) (\<lambda>hit. Inr (if hit then g1\<lparr>gameOver := True\<rparr> else g1)))))"

subsection \<open>rotate\<close>

text \<open>The method \<open>rotate\<close> is named \<open>rotate_piece\<close> here, and \<open>drop\<close> is named
  \<open>drop_piece\<close>: the plain names are functions on lists.\<close>

text \<open>The inner loop \<open>rotated[x][rows-1-y] = cell\<close> over one row of the shape.\<close>

fun rotateRow :: "nat \<Rightarrow> nat \<Rightarrow> nat \<Rightarrow> int list \<Rightarrow> grid \<Rightarrow> error + grid" where
  "rotateRow rows y x [] rotated = Inr rotated"
| "rotateRow rows y x (cell # cells) rotated =
     bindE (gridSet rotated (int x) (int rows - 1 - int y) cell)
       (\<lambda>rotated'. rotateRow rows y (Suc x) cells rotated')"

fun rotateRows :: "nat \<Rightarrow> nat \<Rightarrow> int list list \<Rightarrow> grid \<Rightarrow> error + grid" where
  "rotateRows rows y [] rotated = Inr rotated"
| "rotateRows rows y (row # rest) rotated =
     bindE (rotateRow rows y 0 row rotated) (\<lambda>rotated'. rotateRows rows (Suc y) rest rotated')"

definition rotate_piece :: "game \<Rightarrow> error + game" where
  "rotate_piece g =
     (let rows = length (currShape g) in
      bindE (idx (currShape g) 0) (\<lambda>row0.
        let cols = length row0 in
        bindE (rotateRows rows 0 (currShape g) (replicate cols (replicate rows 0))) (\<lambda>rotated.
          let oldShape = currShape g; g1 = g\<lparr>currShape := rotated\<rparr> in
          bindE (collides g1) (\<lambda>hit. Inr (if hit then g1\<lparr>currShape := oldShape\<rparr> else g1)))))"

subsection \<open>move\<close>

definition move :: "int \<Rightarrow> int \<Rightarrow> game \<Rightarrow> error + bool \<times> game" where
  "move dx dy g =
     (let g1 = g\<lparr>pieceX := pieceX g + dx, pieceY := pieceY g + dy\<rparr> in
      bindE (collides g1) (\<lambda>hit.
        if hit then Inr (False, g1\<lparr>pieceX := pieceX g1 - dx, pieceY := pieceY g1 - dy\<rparr>)
        else Inr (True, g1)))"

subsection \<open>lockPiece\<close>

fun lockRow :: "int \<Rightarrow> int \<Rightarrow> int \<Rightarrow> nat \<Rightarrow> nat \<Rightarrow> int list \<Rightarrow> grid \<Rightarrow> error + grid" where
  "lockRow cp px py y x [] b = Inr b"
| "lockRow cp px py y x (cell # cells) b =
     (if cell = 1 then
        (let boardY = py + int y; boardX = px + int x in
         if boardY \<ge> 0 \<and> boardY < BoardHeight \<and> boardX \<ge> 0 \<and> boardX < BoardWidth
         then bindE (gridSet b boardY boardX (cp + 1)) (\<lambda>b'. lockRow cp px py y (Suc x) cells b')
         else lockRow cp px py y (Suc x) cells b)
      else lockRow cp px py y (Suc x) cells b)"

fun lockRows :: "int \<Rightarrow> int \<Rightarrow> int \<Rightarrow> nat \<Rightarrow> int list list \<Rightarrow> grid \<Rightarrow> error + grid" where
  "lockRows cp px py y [] b = Inr b"
| "lockRows cp px py y (row # rest) b =
     bindE (lockRow cp px py y 0 row b) (\<lambda>b'. lockRows cp px py (Suc y) rest b')"

definition lockPiece :: "game \<Rightarrow> error + game" where
  "lockPiece g =
     bindE (lockRows (currPiece g) (pieceX g) (pieceY g) 0 (currShape g) (board g))
       (\<lambda>b. Inr (g\<lparr>board := b\<rparr>))"

subsection \<open>clearLines\<close>

text \<open>The completeness test of row \<open>y\<close>: columns are visited in order and the first
  zero cell breaks out of the loop.\<close>

fun rowCompleteFrom :: "grid \<Rightarrow> int \<Rightarrow> int list \<Rightarrow> error + bool" where
  "rowCompleteFrom b y [] = Inr True"
| "rowCompleteFrom b y (x # xs) =
     bindE (gridGet b y x) (\<lambda>v. if v = 0 then Inr False else rowCompleteFrom b y xs)"

definition rowComplete :: "grid \<Rightarrow> int \<Rightarrow> error + bool" where
  "rowComplete b y = rowCompleteFrom b y [0..BoardWidth - 1]"

text \<open>\<open>board[removeY][x] = board[removeY-1][x]\<close> for the columns \<open>xs\<close>.\<close>

fun copyCells :: "grid \<Rightarrow> int \<Rightarrow> int list \<Rightarrow> error + grid" where
  "copyCells b removeY [] = Inr b"
| "copyCells b removeY (x # xs) =
     bindE (gridGet b (removeY - 1) x) (\<lambda>v.
     bindE (gridSet b removeY x v) (\<lambda>b'. copyCells b' removeY xs))"

text \<open>The loop over \<open>removeY\<close>, given the values it visits.\<close>

fun shiftRows :: "grid \<Rightarrow> int list \<Rightarrow> error + grid" where
  "shiftRows b [] = Inr b"
| "shiftRows b (removeY # rest) =
     bindE (copyCells b removeY [0..BoardWidth - 1]) (\<lambda>b'. shiftRows b' rest)"

text \<open>\<open>board[0][x] = 0\<close> for the columns \<open>xs\<close>.\<close>

fun clearCells :: "grid \<Rightarrow> int list \<Rightarrow> error + grid" where
  "clearCells b [] = Inr b"
| "clearCells b (x # xs) = bindE (gridSet b 0 x 0) (\<lambda>b'. clearCells b' xs)"

text \<open>What the scan does to a complete row \<open>y\<close>: \<open>removeY\<close> runs from \<open>y\<close> down to 1,
  then row 0 is cleared.\<close>

definition removeLine :: "grid \<Rightarrow> int \<Rightarrow> error + grid" where
  "removeLine b y =
     bindE (shiftRows b (rev [1..y])) (\<lambda>b'. clearCells b' [0..BoardWidth - 1])"

text \<open>
  The scan \<open>for y := BoardHeight - 1; y >= 0; y--\<close>. After a removal the body increments
  \<open>y\<close> and the loop header decrements it, so the same row is examined again: the loop
  counter does not decrease in every iteration, and that the loop ends is a property to
  prove. \<open>None\<close> stands for a scan that does not return.
\<close>

partial_function (option) clearScan :: "int \<Rightarrow> grid \<Rightarrow> nat \<Rightarrow> (error + grid \<times> nat) option" where
  "clearScan y b linesCleared =
     (if y < 0 then Some (Inr (b, linesCleared))
      else case rowComplete b y of
        Inl e \<Rightarrow> Some (Inl e)
      | Inr complete \<Rightarrow>
          if complete then
            (case removeLine b y of
               Inl e \<Rightarrow> Some (Inl e)
             | Inr b' \<Rightarrow> clearScan y b' (Suc linesCleared))
          else clearScan (y - 1) b linesCleared)"

definition scoreTable :: "int list" where
  "scoreTable = [0, 100, 300, 500, 800]"

text \<open>\<open>g.lines/10\<close> is Go's division, which truncates towards zero: \<open>sdiv\<close>. The two
  \<open>+=\<close>, the product and the final \<open>+ 1\<close> are \<open>int\<close> operations of Go, which wrap.\<close>

definition clearLines :: "game \<Rightarrow> (error + game) option" where
  "clearLines g =
     (case clearScan (BoardHeight - 1) (board g) 0 of
        None \<Rightarrow> None
      | Some (Inl e) \<Rightarrow> Some (Inl e)
      | Some (Inr (b, linesCleared)) \<Rightarrow>
          (let g1 = g\<lparr>board := b\<rparr> in
           if linesCleared > 0 then
             (let g2 = g1\<lparr>lines := wrapInt (lines g1 + int linesCleared)\<rparr> in
              Some (bindE (idx scoreTable (int linesCleared)) (\<lambda>points.
                let g3 = g2\<lparr>score := wrapInt (score g2 + wrapInt (points * level g2))\<rparr>
                in Inr (g3\<lparr>level := wrapInt (lines g3 sdiv 10 + 1)\<rparr>))))
           else Some (Inr g1)))"

subsection \<open>drop\<close>

definition drop_piece :: "game \<Rightarrow> (error + bool \<times> game) option" where
  "drop_piece g =
     (case move 0 1 g of
        Inl e \<Rightarrow> Some (Inl e)
      | Inr (moved, g1) \<Rightarrow>
          if \<not> moved then
            (case lockPiece g1 of
               Inl e \<Rightarrow> Some (Inl e)
             | Inr g2 \<Rightarrow>
                 (case clearLines g2 of
                    None \<Rightarrow> None
                  | Some (Inl e) \<Rightarrow> Some (Inl e)
                  | Some (Inr g3) \<Rightarrow> Some (bindE (spawnPiece g3) (\<lambda>g4. Inr (False, g4)))))
          else Some (Inr (True, g1)))"

subsection \<open>getGhostPosition\<close>

text \<open>The test of one filled cell in the ghost loop: \<open>Inr True\<close> when the cell below is
  blocked (\<open>canMove = false; break\<close>). The column is not checked before the board is read.\<close>

definition ghostCell :: "grid \<Rightarrow> int \<Rightarrow> int \<Rightarrow> error + bool" where
  "ghostCell b boardX boardY =
     (if boardY \<ge> BoardHeight then Inr True
      else if boardY \<ge> 0 then bindE (gridGet b boardY boardX) (\<lambda>v. Inr (v \<noteq> 0))
      else Inr False)"

text \<open>The two nested loops compute \<open>canMove\<close>; a blocked cell breaks out of both.\<close>

fun ghostRow :: "grid \<Rightarrow> int \<Rightarrow> int \<Rightarrow> nat \<Rightarrow> nat \<Rightarrow> int list \<Rightarrow> error + bool" where
  "ghostRow b px ghostY y x [] = Inr True"
| "ghostRow b px ghostY y x (cell # cells) =
     (if cell = 1 then
        bindE (ghostCell b (px + int x) (ghostY + int y + 1))
          (\<lambda>blocked. if blocked then Inr False else ghostRow b px ghostY y (Suc x) cells)
      else ghostRow b px ghostY y (Suc x) cells)"

fun ghostRows :: "grid \<Rightarrow> int \<Rightarrow> int \<Rightarrow> nat \<Rightarrow> int list list \<Rightarrow> error + bool" where
  "ghostRows b px ghostY y [] = Inr True"
| "ghostRows b px ghostY y (row # rest) =
     bindE (ghostRow b px ghostY y 0 row)
       (\<lambda>canMove. if \<not> canMove then Inr False else ghostRows b px ghostY (Suc y) rest)"

text \<open>The outer \<open>for { ... }\<close> has no bound of its own: it ends only when some filled cell
  is blocked.\<close>

partial_function (option) ghostLoop :: "game \<Rightarrow> int \<Rightarrow> (error + int \<times> int) option" where
  "ghostLoop g ghostY =
     (case ghostRows (board g) (pieceX g) ghostY 0 (currShape g) of
        Inl e \<Rightarrow> Some (Inl e)
      | Inr canMove \<Rightarrow>
          if \<not> canMove then Some (Inr (pieceX g, ghostY)) else ghostLoop g (ghostY + 1))"

definition getGhostPosition :: "game \<Rightarrow> (error + int \<times> int) option" where
  "getGhostPosition g = ghostLoop g (pieceY g)"

subsection \<open>reset\<close>

definition reset :: "game \<Rightarrow> error + game" where
  "reset g =
     spawnPiece (g\<lparr>board := map (map (\<lambda>_. 0)) (board g),
                   score := 0, lines := 0, level := 1, nextPiece := 0,
                   paused := False, gameOver := False\<rparr>)"

subsection \<open>The driver's use of the engine (Run)\<close>

text \<open>
  A key event of the terminal library, reduced to what \<open>Run\<close> reads of it: the key code
  and the rune.
\<close>

datatype keycode = KeyEscape | KeyCtrlC | KeyLeft | KeyRight | KeyUp | KeyDown | KeyRune | KeyOther

record event =
  Key :: keycode
  Rune :: char

text \<open>What handling one event leads to: the loop goes on with a state, \<open>Run\<close> returns to
  the menu, the process exits, or it panics.\<close>

datatype 'g outcome = Continue 'g | Return | Exit | Panic error

definition continue :: "error + 'g \<Rightarrow> 'g outcome" where
  "continue r = (case r of Inl e \<Rightarrow> Panic e | Inr g \<Rightarrow> Continue g)"

text \<open>The hard drop of \<open>Run\<close>: \<open>for game.drop() { }\<close>.\<close>

partial_function (option) hardDrop :: "game \<Rightarrow> (error + game) option" where
  "hardDrop g =
     (case drop_piece g of
        None \<Rightarrow> None
      | Some r \<Rightarrow>
          (case r of
             Inl e \<Rightarrow> Some (Inl e)
           | Inr (moved, g') \<Rightarrow> if moved then hardDrop g' else Some (Inr g')))"

text \<open>The key-event branch of one iteration of \<open>Run\<close>'s loop. Rendering, which only
  reads the state, and the timer are left out.\<close>

definition Run_key :: "event \<Rightarrow> game \<Rightarrow> game outcome option" where
  "Run_key ev g =
     (if Key ev = KeyEscape then Some Return
      else if Key ev = KeyCtrlC \<or> Rune ev = CHR ''q'' \<or> Rune ev = CHR ''Q'' then Some Exit
      else if gameOver g then
        (if Rune ev = CHR ''r'' \<or> Rune ev = CHR ''R'' then Some (continue (reset g))
         else Some (Continue g))
      else if Rune ev = CHR ''p'' \<or> Rune ev = CHR ''P''
        then Some (Continue (g\<lparr>paused := \<not> paused g\<rparr>))
      else if paused g then Some (Continue g)
      else (case Key ev of
          KeyLeft \<Rightarrow> Some (continue (map_sum id snd (move (- 1) 0 g)))
        | KeyRight \<Rightarrow> Some (continue (map_sum id snd (move 1 0 g)))
        | KeyDown \<Rightarrow> map_option (\<lambda>r. continue (map_sum id snd r)) (drop_piece g)
        | KeyUp \<Rightarrow> Some (continue (rotate_piece g))
        | KeyRune \<Rightarrow>
            if Rune ev = CHR '' '' then map_option continue (hardDrop g) else Some (Continue g)
        | _ \<Rightarrow> Some (Continue g)))"

text \<open>The automatic drop of one iteration, taken when the drop interval has elapsed.\<close>

definition Run_tick :: "game \<Rightarrow> game outcome option" where
  "Run_tick g =
     (if \<not> gameOver g \<and> \<not> paused g
      then map_option (\<lambda>r. continue (map_sum id snd r)) (drop_piece g)
      else Some (Continue g))"

subsection \<open>Notions for stating the properties of the Tetris engine\<close>

text \<open>The empty board.\<close>

definition zeroBoard :: grid where
  "zeroBoard = replicate (nat BoardHeight) (replicate (nat BoardWidth) 0)"

text \<open>The state \<open>spawnPiece\<close> builds before its collision check, for the piece index \<open>c\<close>,
  the index \<open>n\<close> of the piece after it, and the generator \<open>r\<close> left.\<close>

definition spawned :: "game \<Rightarrow> nat \<Rightarrow> nat \<Rightarrow> rng \<Rightarrow> game" where
  "spawned g c n r =
     g\<lparr>currPiece := int c, currShape := Shapes ! c,
       pieceX := BoardWidth div 2 - int (length (Shapes ! c ! 0) div 2), pieceY := 0,
       nextPiece := int n + 1, rng := r\<rparr>"

text \<open>Example states: the results of two resets in a row when the generator draws
  0, 0, 1, 1; a lost game, with the two spawn columns filled to the top and the new piece
  colliding where it spawned.\<close>

definition resetOnce :: game where
  "resetOnce = (NewGame (1 ## 1 ## sconst 0))\<lparr>currPiece := 0, currShape := [[1, 1, 1, 1]],
      pieceX := 3, nextPiece := 1\<rparr>"

definition resetTwice :: game where
  "resetTwice = (NewGame (sconst 0))\<lparr>currPiece := 1, currShape := [[1, 1], [1, 1]],
      pieceX := 4, nextPiece := 2\<rparr>"

definition stackedOut :: game where
  "stackedOut =
     \<lparr>board = replicate 20 [0, 0, 0, 0, 2, 2, 0, 0, 0, 0],
      currPiece = 1, currShape = [[1, 1], [1, 1]], nextPiece = 2,
      pieceX = 4, pieceY = 0,
      score = 0, lines = 0, level = 1, paused = False, gameOver = True, rng = sconst 0\<rparr>"

text \<open>A grid of \<open>h\<close> rows of \<open>w\<close> cells.\<close>

definition dims :: "grid \<Rightarrow> nat \<Rightarrow> nat \<Rightarrow> bool" where
  "dims b h w \<longleftrightarrow> length b = h \<and> (\<forall>r \<in> set b. length r = w)"

text \<open>The clockwise transform in the words of the specification:
  \<open>rotated[x][rows-1-y] = shape[y][x]\<close>, that is \<open>rotated[x][j] = shape[rows-1-j][x]\<close>.\<close>

definition rot90 :: "int list list \<Rightarrow> int list list" where
  "rot90 s =
     map (\<lambda>x. map (\<lambda>j. s ! (length s - 1 - j) ! x) [0..<length s]) [0..<length (s ! 0)]"

text \<open>Example states on the empty board: the upright \<open>I\<close> piece in the last column,
  and a \<open>T\<close> piece where it spawns.\<close>

definition uprightAtWall :: game where
  "uprightAtWall =
     \<lparr>board = zeroBoard, currPiece = 0, currShape = [[1], [1], [1], [1]], nextPiece = 3,
      pieceX = 9, pieceY = 5, score = 0, lines = 0, level = 1,
      paused = False, gameOver = False, rng = sconst 0\<rparr>"

definition freshT :: game where
  "freshT =
     \<lparr>board = zeroBoard, currPiece = 2, currShape = [[0, 1, 0], [1, 1, 1]], nextPiece = 3,
      pieceX = 4, pieceY = 0, score = 0, lines = 0, level = 1,
      paused = False, gameOver = False, rng = sconst 0\<rparr>"

text \<open>An empty row, and the test of the scan: a row is complete when every column is
  non-zero.\<close>

definition zeroRow :: "int list" where
  "zeroRow = replicate (nat BoardWidth) 0"

definition isComplete :: "int list \<Rightarrow> bool" where
  "isComplete r \<longleftrightarrow> (\<forall>x < nat BoardWidth. r ! x \<noteq> 0)"

text \<open>The board after the removal of row \<open>n\<close>.\<close>

definition removed :: "grid \<Rightarrow> nat \<Rightarrow> grid" where
  "removed b n = zeroRow # take n b @ drop (Suc n) b"

text \<open>A board with rows 17 and 19 complete and rows 16 and 18 partly filled.\<close>

definition twoRowsFull :: game where
  "twoRowsFull =
     \<lparr>board = replicate 16 [0, 0, 0, 0, 0, 0, 0, 0, 0, 0] @
        [[0, 0, 0, 3, 0, 0, 0, 0, 0, 0],
         [1, 1, 1, 1, 2, 2, 2, 2, 3, 3],
         [5, 5, 0, 0, 0, 0, 0, 0, 0, 6],
         [7, 7, 7, 7, 4, 4, 4, 4, 1, 1]],
      currPiece = 0, currShape = [[1, 1, 1, 1]], nextPiece = 2, pieceX = 3, pieceY = 0,
      score = 1000, lines = 28, level = 3, paused = False, gameOver = False, rng = sconst 0\<rparr>"

text \<open>A long game, as \<open>clearLines\<close> finds it when a \<open>T\<close> piece has been locked into
  the bottom row and completed it: 1000000000 lines cleared, the level that belongs to that
  many lines, and a score 7 below the largest \<open>int\<close>.\<close>

definition scoreAtLimit :: game where
  "scoreAtLimit =
     \<lparr>board = replicate 18 [0, 0, 0, 0, 0, 0, 0, 0, 0, 0] @
        [[0, 0, 0, 0, 0, 0, 0, 0, 3, 0],
         [1, 1, 1, 1, 2, 2, 2, 3, 3, 3]],
      currPiece = 2, currShape = [[0, 1, 0], [1, 1, 1]], nextPiece = 0,
      pieceX = 7, pieceY = 18,
      score = 9223372036854775800, lines = 1000000000, level = 100000001,
      paused = False, gameOver = False, rng = sconst 0\<rparr>"

text \<open>Four rows with only column 9 open and the upright \<open>I\<close> piece in that
  column; a board with five complete rows.\<close>

definition tetrisReady :: game where
  "tetrisReady =
     \<lparr>board = replicate 16 [0, 0, 0, 0, 0, 0, 0, 0, 0, 0] @
        replicate 4 [1, 1, 1, 1, 1, 1, 1, 1, 1, 0],
      currPiece = 0, currShape = [[1], [1], [1], [1]], nextPiece = 2, pieceX = 9, pieceY = 16,
      score = 0, lines = 0, level = 1, paused = False, gameOver = False, rng = sconst 0\<rparr>"

definition fiveRowsFull :: game where
  "fiveRowsFull =
     \<lparr>board = replicate 15 [0, 0, 0, 0, 0, 0, 0, 0, 0, 0] @
        replicate 5 [1, 1, 1, 1, 1, 1, 1, 1, 1, 1],
      currPiece = 0, currShape = [[1], [1], [1], [1]], nextPiece = 2, pieceX = 4, pieceY = 0,
      score = 0, lines = 0, level = 1, paused = False, gameOver = False, rng = sconst 0\<rparr>"

text \<open>\<open>Move(0, 1)\<close> called again and again until it first returns false.\<close>

partial_function (option) moveUntilBlocked :: "game \<Rightarrow> (error + game) option" where
  "moveUntilBlocked g =
     (case move 0 1 g of
        Inl e \<Rightarrow> Some (Inl e)
      | Inr (moved, g') \<Rightarrow> if moved then moveUntilBlocked g' else Some (Inr g'))"

text \<open>What \<open>drop\<close> does with a piece that has landed: \<open>lockPiece\<close>, \<open>clearLines\<close>,
  \<open>spawnPiece\<close>.\<close>

definition landPiece :: "game \<Rightarrow> (error + game) option" where
  "landPiece g =
     (case lockPiece g of
        Inl e \<Rightarrow> Some (Inl e)
      | Inr g2 \<Rightarrow>
          (case clearLines g2 of
             None \<Rightarrow> None
           | Some (Inl e) \<Rightarrow> Some (Inl e)
           | Some (Inr g3) \<Rightarrow> Some (spawnPiece g3)))"

text \<open>Every filled cell of the shape lies over a column of the board.\<close>

definition inColumns :: "int list list \<Rightarrow> int \<Rightarrow> bool" where
  "inColumns s px \<longleftrightarrow>
     (\<forall>y < length s. \<forall>x < length (s ! y). s ! y ! x = 1 \<longrightarrow> 0 \<le> px + int x \<and> px + int x < BoardWidth)"

text \<open>A current piece: a shape with at least one row, all rows as long as the first, and
  at least one filled cell. The invariant of the engine: the board has its dimensions, and
  there is no shape yet or the shape is a piece.\<close>

definition pieceOK :: "int list list \<Rightarrow> bool" where
  "pieceOK s \<longleftrightarrow> s \<noteq> [] \<and> (\<forall>row \<in> set s. length row = length (s ! 0)) \<and>
     (\<exists>row \<in> set s. 1 \<in> set row)"

definition inv :: "game \<Rightarrow> bool" where
  "inv g \<longleftrightarrow> wf_board (board g) \<and> (currShape g = [] \<or> pieceOK (currShape g))"

text \<open>The states of the Tetris engine that a run can be in: \<open>Run\<close> starts from
  \<open>NewGame\<close>, and every later state is produced by an engine method or by the pause key.\<close>

inductive reachable :: "game \<Rightarrow> bool" where
  new: "reachable (NewGame r)"
| spawn: "reachable g \<Longrightarrow> spawnPiece g = Inr g' \<Longrightarrow> reachable g'"
| shift: "reachable g \<Longrightarrow> move dx dy g = Inr (moved, g') \<Longrightarrow> reachable g'"
| turn: "reachable g \<Longrightarrow> rotate_piece g = Inr g' \<Longrightarrow> reachable g'"
| down: "reachable g \<Longrightarrow> drop_piece g = Some (Inr (moved, g')) \<Longrightarrow> reachable g'"
| again: "reachable g \<Longrightarrow> reset g = Inr g' \<Longrightarrow> reachable g'"
| pause: "reachable g \<Longrightarrow> reachable (g\<lparr>paused := \<not> paused g\<rparr>)"

section \<open>Snake engine (snake package: engine, and Run in snake/snake.go)\<close>

text \<open>Names that the Tetris engine already uses carry the suffix \<open>_s\<close>.\<close>

definition BoardWidth_s :: int where "BoardWidth_s = 20"
definition BoardHeight_s :: int where "BoardHeight_s = 15"

datatype direction = Up | Down | Left | Right

text \<open>A \<open>Point\<close> is the pair \<open>(x, y)\<close>.\<close>

type_synonym point = "int \<times> int"

record game_s =
  board_s :: grid
  snake :: "point list"
  food :: point
  direction :: direction
  nextDir :: direction
  score_s :: int
  length_s :: int
  paused_s :: bool
  gameOver_s :: bool
  rng_s :: rng

definition initialSnake :: "point list" where
  "initialSnake =
     [(BoardWidth_s div 2, BoardHeight_s div 2),
      (BoardWidth_s div 2, BoardHeight_s div 2 + 1),
      (BoardWidth_s div 2, BoardHeight_s div 2 + 2)]"

definition NewGame_s :: "rng \<Rightarrow> game_s" where
  "NewGame_s r =
     \<lparr>board_s = replicate (nat BoardHeight_s) (replicate (nat BoardWidth_s) 0),
      snake = initialSnake, food = (0, 0), direction = Up, nextDir = Up,
      score_s = 0, length_s = 3, paused_s = False, gameOver_s = False, rng_s = r\<rparr>"

subsection \<open>spawnFood\<close>

text \<open>The scan of \<open>spawnFood\<close>: every cell of the grid whose value is 0 is appended to
  \<open>emptyPoints\<close>, row by row.\<close>

fun emptyInRow :: "grid \<Rightarrow> int \<Rightarrow> int list \<Rightarrow> point list \<Rightarrow> error + point list" where
  "emptyInRow b y [] emptyPoints = Inr emptyPoints"
| "emptyInRow b y (x # xs) emptyPoints =
     bindE (gridGet b y x) (\<lambda>v.
       emptyInRow b y xs (if v = 0 then emptyPoints @ [(x, y)] else emptyPoints))"

fun emptyInRows :: "grid \<Rightarrow> int list \<Rightarrow> point list \<Rightarrow> error + point list" where
  "emptyInRows b [] emptyPoints = Inr emptyPoints"
| "emptyInRows b (y # ys) emptyPoints =
     bindE (emptyInRow b y [0..BoardWidth_s - 1] emptyPoints) (\<lambda>ps. emptyInRows b ys ps)"

definition spawnFood :: "game_s \<Rightarrow> error + game_s" where
  "spawnFood g =
     bindE (emptyInRows (board_s g) [0..BoardHeight_s - 1] []) (\<lambda>emptyPoints.
       if length emptyPoints > 0 then
         (let (i, r) = Intn (rng_s g) (length emptyPoints)
          in Inr (g\<lparr>food := emptyPoints ! i, rng_s := r\<rparr>))
       else Inr g)"

subsection \<open>collides, move, reset\<close>

text \<open>The self-collision loop compares \<open>head\<close> with \<open>snake[0 .. len-2]\<close>. In \<open>move\<close>,
  \<open>g.score += 10\<close> and \<open>g.length++\<close> are \<open>int\<close> operations of Go, which wrap.\<close>

definition collides_s :: "game_s \<Rightarrow> point \<Rightarrow> bool" where
  "collides_s g head =
     (if fst head < 0 \<or> fst head \<ge> BoardWidth_s \<or> snd head < 0 \<or> snd head \<ge> BoardHeight_s
      then True
      else head \<in> set (take (length (snake g) - 1) (snake g)))"

definition move_s :: "game_s \<Rightarrow> error + bool \<times> game_s" where
  "move_s g =
     (let g1 = g\<lparr>direction := nextDir g\<rparr> in
      bindE (idx (snake g1) 0) (\<lambda>(hx, hy).
        let head = (case direction g1 of
                      Up \<Rightarrow> (hx, hy - 1)
                    | Down \<Rightarrow> (hx, hy + 1)
                    | Left \<Rightarrow> (hx - 1, hy)
                    | Right \<Rightarrow> (hx + 1, hy))
        in if collides_s g1 head then Inr (False, g1\<lparr>gameOver_s := True\<rparr>)
           else
             (let ateFood = (head = food g1);
                  g2 = g1\<lparr>snake := head # snake g1\<rparr>
              in if ateFood then
                   bindE (spawnFood (g2\<lparr>score_s := wrapInt (score_s g2 + 10),
                                          length_s := wrapInt (length_s g2 + 1)\<rparr>))
                     (\<lambda>g3. Inr (True, g3))
                 else if int (length (snake g2)) > length_s g2
                   then Inr (True, g2\<lparr>snake := take (length (snake g2) - 1) (snake g2)\<rparr>)
                   else Inr (True, g2))))"

definition reset_s :: "game_s \<Rightarrow> error + game_s" where
  "reset_s g =
     spawnFood (g\<lparr>board_s := map (map (\<lambda>_. 0)) (board_s g),
                  snake := initialSnake, direction := Up, nextDir := Up,
                  score_s := 0, length_s := 3, paused_s := False, gameOver_s := False\<rparr>)"

subsection \<open>The driver's use of the engine (Run)\<close>

text \<open>The key-event branch of one iteration of the loop of \<open>Run\<close>. The direction keys are
  the only place where \<open>nextDir\<close> is requested.\<close>

definition Run_key_s :: "event \<Rightarrow> game_s \<Rightarrow> game_s outcome" where
  "Run_key_s ev g =
     (if Key ev = KeyEscape then Return
      else if gameOver_s g then
        (if Rune ev = CHR ''r'' \<or> Rune ev = CHR ''R'' then continue (reset_s g)
         else Continue g)
      else if Rune ev = CHR ''p'' \<or> Rune ev = CHR ''P''
        then Continue (g\<lparr>paused_s := \<not> paused_s g\<rparr>)
      else if paused_s g then Continue g
      else (case Key ev of
          KeyUp \<Rightarrow> Continue (if direction g \<noteq> Down then g\<lparr>nextDir := Up\<rparr> else g)
        | KeyDown \<Rightarrow> Continue (if direction g \<noteq> Up then g\<lparr>nextDir := Down\<rparr> else g)
        | KeyLeft \<Rightarrow> Continue (if direction g \<noteq> Right then g\<lparr>nextDir := Left\<rparr> else g)
        | KeyRight \<Rightarrow> Continue (if direction g \<noteq> Left then g\<lparr>nextDir := Right\<rparr> else g)
        | KeyRune \<Rightarrow>
            if Rune ev = CHR ''r'' \<or> Rune ev = CHR ''R'' then continue (reset_s g)
            else Continue g
        | _ \<Rightarrow> Continue g))"


text \<open>
  The states of the Snake engine that a run can be in: \<open>Run\<close> starts from \<open>NewGame\<close>,
  and every later state is produced by an engine method or by the handling of a key event.
\<close>

inductive reachable_s :: "game_s \<Rightarrow> bool" where
  new: "reachable_s (NewGame_s r)"
| food: "reachable_s g \<Longrightarrow> spawnFood g = Inr g' \<Longrightarrow> reachable_s g'"
| step: "reachable_s g \<Longrightarrow> move_s g = Inr (moved, g') \<Longrightarrow> reachable_s g'"
| again: "reachable_s g \<Longrightarrow> reset_s g = Inr g' \<Longrightarrow> reachable_s g'"
| key: "reachable_s g \<Longrightarrow> Run_key_s ev g = Continue g' \<Longrightarrow> reachable_s g'"

subsection \<open>Notions for stating the properties of the Snake engine\<close>

text \<open>The grid of the Snake engine has \<open>BoardHeight\<close> rows of \<open>BoardWidth\<close> cells; it
  starts all zero. \<open>allCells_s\<close> lists the cells in the order \<open>spawnFood\<close> visits them.\<close>

definition wf_board_s :: "grid \<Rightarrow> bool" where
  "wf_board_s b \<longleftrightarrow>
     int (length b) = BoardHeight_s \<and> (\<forall>r \<in> set b. int (length r) = BoardWidth_s)"

definition zeroBoard_s :: grid where
  "zeroBoard_s = replicate (nat BoardHeight_s) (replicate (nat BoardWidth_s) 0)"

definition allCells_s :: "point list" where
  "allCells_s = concat (map (\<lambda>y. map (\<lambda>x. (x, y)) [0..BoardWidth_s - 1]) [0..BoardHeight_s - 1])"

text \<open>The invariant of the reachable states: the grid is all zero and the snake lies on
  the board.\<close>

definition inv_s :: "game_s \<Rightarrow> bool" where
  "inv_s g \<longleftrightarrow> board_s g = zeroBoard_s \<and>
     (\<forall>p \<in> set (snake g). 0 \<le> fst p \<and> fst p < BoardWidth_s \<and> 0 \<le> snd p \<and> snd p < BoardHeight_s)"




text \<open>Example states: the food on the head of the initial snake, and a paused game.\<close>

definition foodOnHead :: game_s where
  "foodOnHead = (NewGame_s (150 ## sconst 0))\<lparr>food := (10, 7), rng_s := sconst 0\<rparr>"


section \<open>Properties of the Tetris engine\<close>

lemma bindE_Inr [simp]: "bindE (Inr v) f = f v"
  by (simp add: bindE_def)

lemma bindE_Inl [simp]: "bindE (Inl e) f = Inl e"
  by (simp add: bindE_def)

lemma wrapInt_id: "inInt i \<Longrightarrow> wrapInt i = i"
  by (simp add: wrapInt_def inInt_def)

lemma inInt_wrapInt: "inInt (wrapInt i)"
proof -
  have "0 \<le> (i + 2 ^ 63) mod (2 ^ 64 :: int)" "(i + 2 ^ 63) mod (2 ^ 64 :: int) < 2 ^ 64"
    by simp_all
  then show ?thesis unfolding wrapInt_def inInt_def by simp
qed

lemma wrapInt_add_wrapInt: "wrapInt (a + wrapInt b) = wrapInt (a + b)"
proof -
  have "(a + ((b + 2 ^ 63) mod 2 ^ 64 - 2 ^ 63) + 2 ^ 63) mod (2 ^ 64 :: int) =
        (a + (b + 2 ^ 63) mod 2 ^ 64) mod 2 ^ 64" by simp
  also have "\<dots> = (a + (b + 2 ^ 63)) mod 2 ^ 64" by (rule mod_add_right_eq)
  finally show ?thesis by (simp add: wrapInt_def add.assoc)
qed

lemma inInt_level: "inInt l \<Longrightarrow> inInt (l sdiv 10 + 1)"
  unfolding inInt_def signed_divide_int_def
  by (cases "l < 0") (simp_all add: sgn_if, arith+)

subsection \<open>collides\<close>

lemma wf_board_gridGet:
  assumes "wf_board b" "0 \<le> y" "y < BoardHeight" "0 \<le> x" "x < BoardWidth"
  shows "gridGet b y x = Inr (b ! nat y ! nat x)"
proof -
  from assms have ly: "y < int (length b)" by (simp add: wf_board_def)
  with assms have "b ! nat y \<in> set b" by simp
  with assms have "int (length (b ! nat y)) = BoardWidth" by (simp add: wf_board_def)
  with assms ly show ?thesis by (simp add: gridGet_def)
qed

lemma collidesCell_wf:
  assumes "wf_board b"
  shows "collidesCell b bx by =
     Inr (bx < 0 \<or> BoardWidth \<le> bx \<or> BoardHeight \<le> by \<or> (0 \<le> by \<and> b ! nat by ! nat bx \<noteq> 0))"
  using assms by (auto simp: collidesCell_def wf_board_gridGet)

lemma collidesRow_wf:
  assumes "wf_board b"
  shows "collidesRow b px py y x0 cells =
     Inr (\<exists>x < length cells. cells ! x = 1 \<and>
        (px + int (x0 + x) < 0 \<or> BoardWidth \<le> px + int (x0 + x) \<or> BoardHeight \<le> py + int y \<or>
         (0 \<le> py + int y \<and> b ! nat (py + int y) ! nat (px + int (x0 + x)) \<noteq> 0)))"
proof (induction cells arbitrary: x0)
  case Nil
  show ?case by simp
next
  case (Cons c cs)
  show ?case
    by (auto simp add: Cons.IH collidesCell_wf [OF assms] Ex_less_Suc2 simp del: of_nat_add)
qed

lemma collidesRows_wf:
  assumes "wf_board b"
  shows "collidesRows b px py y0 rows =
     Inr (\<exists>y < length rows. \<exists>x < length (rows ! y). rows ! y ! x = 1 \<and>
        (px + int x < 0 \<or> BoardWidth \<le> px + int x \<or> BoardHeight \<le> py + int (y0 + y) \<or>
         (0 \<le> py + int (y0 + y) \<and> b ! nat (py + int (y0 + y)) ! nat (px + int x) \<noteq> 0)))"
proof (induction rows arbitrary: y0)
  case Nil
  show ?case by simp
next
  case (Cons r rs)
  show ?case
    by (auto simp add: Cons.IH collidesRow_wf [OF assms] Ex_less_Suc2 simp del: of_nat_add)
qed

lemma collides_collidesAt:
  assumes "wf_board (board g)"
  shows "collides g = Inr (collidesAt (board g) (currShape g) (pieceX g) (pieceY g))"
  by (simp add: collides_def collidesAt_def collidesRows_wf [OF assms])

text \<open>
  Claim C7 (boundary asymmetry of \<open>collides\<close>). On a board of the engine's dimensions,
  \<open>collides\<close> returns true exactly when some filled cell of the shape lands on a column
  outside \<open>[0, BoardWidth)\<close> (whatever its row, also above the board), or on a row at or
  below \<open>BoardHeight\<close>, or on an in-bounds cell with non-negative row whose board value is
  non-zero. A filled cell with negative row and a column inside the board satisfies none of
  the three, so it never makes the check fail.
\<close>

theorem collides_boundary_asymmetry:
  assumes "wf_board (board g)"
  shows "collides g =
     Inr (\<exists>y < length (currShape g). \<exists>x < length (currShape g ! y). currShape g ! y ! x = 1 \<and>
        (pieceX g + int x < 0 \<or> BoardWidth \<le> pieceX g + int x \<or>
         BoardHeight \<le> pieceY g + int y \<or>
         (0 \<le> pieceX g + int x \<and> pieceX g + int x < BoardWidth \<and>
          0 \<le> pieceY g + int y \<and> pieceY g + int y < BoardHeight \<and>
          board g ! nat (pieceY g + int y) ! nat (pieceX g + int x) \<noteq> 0)))"
proof -
  have "collidesAt (board g) (currShape g) (pieceX g) (pieceY g) =
     (\<exists>y < length (currShape g). \<exists>x < length (currShape g ! y). currShape g ! y ! x = 1 \<and>
        (pieceX g + int x < 0 \<or> BoardWidth \<le> pieceX g + int x \<or>
         BoardHeight \<le> pieceY g + int y \<or>
         (0 \<le> pieceX g + int x \<and> pieceX g + int x < BoardWidth \<and>
          0 \<le> pieceY g + int y \<and> pieceY g + int y < BoardHeight \<and>
          board g ! nat (pieceY g + int y) ! nat (pieceX g + int x) \<noteq> 0)))"
    unfolding collidesAt_def by (intro ex_cong1 conj_cong refl) auto
  with collides_collidesAt [OF assms] show ?thesis by simp
qed

theorem collides_boundary_asymmetry_witness:
  "wf_board (board (NewGame (sconst 0))) \<and>
   collides ((NewGame (sconst 0))\<lparr>currShape := [[1, 1, 1, 1]], pieceX := 8, pieceY := - 1\<rparr>) = Inr True \<and>
   collides ((NewGame (sconst 0))\<lparr>currShape := [[1, 1, 1, 1]], pieceX := 3, pieceY := - 1\<rparr>) = Inr False"
proof -
  let ?g = "\<lambda>x. (NewGame (sconst 0))\<lparr>currShape := [[1, 1, 1, 1]], pieceX := x, pieceY := - 1\<rparr>"
  have wf: "wf_board (board (?g x))" for x
    by (simp add: NewGame_def wf_board_def BoardHeight_def BoardWidth_def)
  have a: "collides (?g 8) = Inr True"
    unfolding collides_boundary_asymmetry [OF wf]
    by (simp add: NewGame_def BoardHeight_def BoardWidth_def Ex_less_Suc)
  have b: "collides (?g 3) = Inr False"
    unfolding collides_boundary_asymmetry [OF wf]
    by (simp add: NewGame_def BoardHeight_def BoardWidth_def Ex_less_Suc)
  from wf [of 0] a b show ?thesis by simp
qed

subsection \<open>spawnPiece and reset\<close>

lemma zero_wf_board:
  assumes "wf_board b"
  shows "map (map (\<lambda>_. 0)) b = zeroBoard"
proof -
  have "map (map (\<lambda>_. 0)) b = map (\<lambda>r. replicate (nat BoardWidth) (0::int)) b"
    using assms by (intro map_cong refl) (auto simp: wf_board_def map_replicate_const)
  also have "\<dots> = replicate (length b) (replicate (nat BoardWidth) 0)"
    by (rule map_replicate_const)
  finally show ?thesis using assms by (simp add: zeroBoard_def wf_board_def BoardHeight_def)
qed

lemma wf_zeroBoard: "wf_board zeroBoard"
  by (simp add: wf_board_def zeroBoard_def BoardHeight_def BoardWidth_def)

lemma zeroBoard_nth:
  "0 \<le> y \<Longrightarrow> y < BoardHeight \<Longrightarrow> 0 \<le> x \<Longrightarrow> x < BoardWidth \<Longrightarrow> zeroBoard ! nat y ! nat x = 0"
  by (simp add: zeroBoard_def BoardHeight_def BoardWidth_def)

lemma collidesAt_zeroBoard:
  "collidesAt zeroBoard s px py \<longleftrightarrow>
     (\<exists>y < length s. \<exists>x < length (s ! y). s ! y ! x = 1 \<and>
        (px + int x < 0 \<or> BoardWidth \<le> px + int x \<or> BoardHeight \<le> py + int y))"
  unfolding collidesAt_def
proof (intro ex_cong1 conj_cong refl)
  fix y x
  have "zeroBoard ! nat (py + int y) ! nat (px + int x) = 0"
    if "0 \<le> py + int y" "\<not> BoardHeight \<le> py + int y" "\<not> px + int x < 0" "\<not> BoardWidth \<le> px + int x"
    using that by (intro zeroBoard_nth) simp_all
  then show "(px + int x < 0 \<or> BoardWidth \<le> px + int x \<or> BoardHeight \<le> py + int y \<or>
       0 \<le> py + int y \<and> zeroBoard ! nat (py + int y) ! nat (px + int x) \<noteq> 0) =
      (px + int x < 0 \<or> BoardWidth \<le> px + int x \<or> BoardHeight \<le> py + int y)"
    by blast
qed

lemma spawn_free_zeroBoard:
  assumes "c < 7"
  shows "\<not> collidesAt zeroBoard (Shapes ! c) (BoardWidth div 2 - int (length (Shapes ! c ! 0) div 2)) 0"
proof -
  from assms have "c = 0 \<or> c = 1 \<or> c = 2 \<or> c = 3 \<or> c = 4 \<or> c = 5 \<or> c = 6" by arith
  then show ?thesis
    by (elim disjE)
       (simp_all add: collidesAt_zeroBoard Shapes_def BoardWidth_def BoardHeight_def
          Ex_less_Suc)
qed

lemma length_Shapes: "length Shapes = 7"
  by (simp add: Shapes_def)

lemma Shapes_nonempty:
  assumes "c < 7"
  shows "Shapes ! c \<noteq> []"
proof -
  from assms have "c = 0 \<or> c = 1 \<or> c = 2 \<or> c = 3 \<or> c = 4 \<or> c = 5 \<or> c = 6" by arith
  then show ?thesis by (elim disjE) (simp_all add: Shapes_def)
qed

lemma idx_nat: "n < length xs \<Longrightarrow> idx xs (int n) = Inr (xs ! n)"
  by (simp add: idx_def)

lemma idx_0: "xs \<noteq> [] \<Longrightarrow> idx xs 0 = Inr (xs ! 0)"
  by (simp add: idx_def)

lemma spawnPiece_fresh:
  assumes "nextPiece g = 0" "wf_board (board g)"
  shows "spawnPiece g =
     (let c = shd (rng g) mod 7; n = shd (stl (rng g)) mod 7;
          g1 = spawned g c n (stl (stl (rng g)))
      in Inr (if collidesAt (board g) (currShape g1) (pieceX g1) (pieceY g1)
              then g1\<lparr>gameOver := True\<rparr> else g1))"
proof -
  define c where "c = shd (rng g) mod 7"
  have c: "c < 7" by (simp add: c_def)
  have wf: "wf_board (board (spawned g c n r))" for n r
    using assms(2) by (simp add: spawned_def)
  show ?thesis
    using assms(1) c
    by (simp add: spawnPiece_def Intn_def length_Shapes c_def [symmetric] idx_nat
        idx_0 Shapes_nonempty Let_def spawned_def [symmetric] collides_collidesAt [OF wf])
       (simp add: spawned_def)
qed

lemma reset_wf:
  assumes "wf_board (board g)"
  shows "reset g =
     Inr (spawned (g\<lparr>board := zeroBoard, score := 0, lines := 0, level := 1, nextPiece := 0,
                      paused := False, gameOver := False\<rparr>)
            (shd (rng g) mod 7) (shd (stl (rng g)) mod 7) (stl (stl (rng g))))"
proof -
  let ?g0 = "g\<lparr>board := zeroBoard, score := 0, lines := 0, level := 1, nextPiece := 0,
                paused := False, gameOver := False\<rparr>"
  have "reset g = spawnPiece ?g0"
    by (simp add: reset_def zero_wf_board [OF assms])
  also have "\<dots> = Inr (spawned ?g0 (shd (rng g) mod 7) (shd (stl (rng g)) mod 7) (stl (stl (rng g))))"
    using spawn_free_zeroBoard [of "shd (rng g) mod 7"]
    by (simp add: spawnPiece_fresh wf_zeroBoard Let_def) (simp add: spawned_def)
  finally show ?thesis .
qed

lemma wf_board_NewGame: "wf_board (board (NewGame r))"
  by (simp add: NewGame_def wf_board_def BoardHeight_def BoardWidth_def)

subsection \<open>Commands after game over\<close>

lemma wf_stackedOut: "wf_board (board stackedOut)"
  by (simp add: stackedOut_def wf_board_def BoardHeight_def BoardWidth_def)

lemma move_stackedOut: "move (- 2) 0 stackedOut = Inr (True, stackedOut\<lparr>pieceX := 2\<rparr>)"
proof -
  have wf: "wf_board (board (stackedOut\<lparr>pieceX := pieceX stackedOut + - 2, pieceY := pieceY stackedOut + 0\<rparr>))"
    using wf_stackedOut by simp
  show ?thesis
    unfolding move_def Let_def collides_collidesAt [OF wf]
    by (simp add: collidesAt_def stackedOut_def Ex_less_Suc BoardHeight_def BoardWidth_def)
qed

lemma clear_stackedOut: "clearLines stackedOut = Some (Inr stackedOut)"
  by (simp add: clearLines_def clearScan.simps rowComplete_def gridGet_def stackedOut_def
      BoardHeight_def BoardWidth_def upto_rec1)

lemma move_down_stackedOut: "move 0 1 stackedOut = Inr (False, stackedOut)"
proof -
  have wf: "wf_board (board (stackedOut\<lparr>pieceX := pieceX stackedOut + 0, pieceY := pieceY stackedOut + 1\<rparr>))"
    using wf_stackedOut by simp
  show ?thesis
    unfolding move_def Let_def collides_collidesAt [OF wf]
    by (simp add: collidesAt_def stackedOut_def Ex_less_Suc BoardHeight_def BoardWidth_def)
qed

lemma lock_stackedOut: "lockPiece stackedOut = Inr stackedOut"
  by (simp add: lockPiece_def stackedOut_def gridSet_def BoardHeight_def BoardWidth_def
      numeral_eq_Suc)

lemma spawn_stackedOut: "spawnPiece stackedOut = Inr (stackedOut\<lparr>nextPiece := 1\<rparr>)"
proof -
  have wf: "wf_board (board (stackedOut\<lparr>currPiece := c, currShape := s, pieceX := x, pieceY := y,
      nextPiece := n, rng := r\<rparr>))" for c s x y n r
    using wf_stackedOut by simp
  show ?thesis
    unfolding spawnPiece_def
    by (simp add: Intn_def idx_def Shapes_def collides_collidesAt [OF wf])
       (simp add: stackedOut_def collidesAt_def Ex_less_Suc BoardHeight_def BoardWidth_def)
qed

text \<open>
  Claim C2 (commands after game over). The claim says that \<open>Move\<close>, \<open>Rotate\<close> and
  \<open>Drop\<close> change nothing once \<open>gameOver\<close> is set. The engine methods do not look at
  \<open>gameOver\<close>. In the state \<open>stackedOut\<close> (the two spawn columns filled to the top, the
  new piece colliding where it spawned) a move by two columns to the left succeeds and
  returns true, and a drop locks the piece, spawns the next one and draws a new
  \<open>nextPiece\<close>.
\<close>

theorem game_over_engine_not_guarded:
  "gameOver stackedOut \<and>
   move (- 2) 0 stackedOut = Inr (True, stackedOut\<lparr>pieceX := 2\<rparr>) \<and>
   drop_piece stackedOut = Some (Inr (False, stackedOut\<lparr>nextPiece := 1\<rparr>)) \<and>
   pieceX stackedOut \<noteq> 2 \<and> nextPiece stackedOut \<noteq> 1"
  by (simp add: move_stackedOut drop_piece_def move_down_stackedOut lock_stackedOut
      clear_stackedOut spawn_stackedOut) (simp add: stackedOut_def)

text \<open>
  Claim C2 as the code has it. The guard is in \<open>Run\<close>: once \<open>gameOver\<close> is set, a key
  event other than Escape, Ctrl-C, \<open>q\<close> and \<open>r\<close> (which leave or reset the game) leaves
  every field of the state unchanged, the timed drop is skipped, and neither panics.
\<close>

theorem game_over_commands_blocked_by_driver:
  assumes "gameOver g" and "Key ev \<noteq> KeyEscape" and "Key ev \<noteq> KeyCtrlC"
    and "Rune ev \<notin> {CHR ''q'', CHR ''Q'', CHR ''r'', CHR ''R''}"
  shows "Run_key ev g = Some (Continue g) \<and> Run_tick g = Some (Continue g)"
  using assms by (simp add: Run_key_def Run_tick_def)

theorem game_over_commands_blocked_by_driver_witness:
  "gameOver stackedOut \<and>
   Run_key \<lparr>Key = KeyDown, Rune = CHR 0x00\<rparr> stackedOut = Some (Continue stackedOut) \<and>
   Run_key \<lparr>Key = KeyRune, Rune = CHR '' ''\<rparr> stackedOut = Some (Continue stackedOut) \<and>
   Run_tick stackedOut = Some (Continue stackedOut)"
proof -
  have g: "gameOver stackedOut" by (simp add: stackedOut_def)
  from game_over_commands_blocked_by_driver [OF g, of "\<lparr>Key = KeyDown, Rune = CHR 0x00\<rparr>"]
       game_over_commands_blocked_by_driver [OF g, of "\<lparr>Key = KeyRune, Rune = CHR '' ''\<rparr>"] g
  show ?thesis by simp
qed

subsection \<open>rotate\<close>

lemma dims_nth: "dims b h w \<Longrightarrow> y < h \<Longrightarrow> length (b ! y) = w"
  by (simp add: dims_def)

lemma dims_update:
  assumes "dims b h w" "length r = w"
  shows "dims (b[y := r]) h w"
  using assms by (auto simp: dims_def dest!: set_update_subset_insert [THEN subsetD])

lemma gridSet_dims:
  assumes "dims b h w" "y < h" "x < w"
  shows "gridSet b (int y) (int x) v = Inr (b[y := (b ! y)[x := v]])"
  using assms by (simp add: gridSet_def dims_def)

lemma grid_eqI:
  assumes "dims a h w" "dims b h w" "\<And>y x. y < h \<Longrightarrow> x < w \<Longrightarrow> a ! y ! x = b ! y ! x"
  shows "a = b"
proof (rule nth_equalityI)
  show "length a = length b" using assms(1,2) by (simp add: dims_def)
next
  fix y assume "y < length a"
  then have y: "y < h" using assms(1) by (simp add: dims_def)
  show "a ! y = b ! y"
  proof (rule nth_equalityI)
    show "length (a ! y) = length (b ! y)" using assms(1,2) y by (simp add: dims_nth)
  next
    fix x assume "x < length (a ! y)"
    then have "x < w" using assms(1) y by (simp add: dims_nth)
    with y show "a ! y ! x = b ! y ! x" by (rule assms(3))
  qed
qed

lemma rotateRow_spec:
  assumes "dims rot cols rows" "y < rows" "x0 + length cells \<le> cols"
  shows "\<exists>rot'. rotateRow rows y x0 cells rot = Inr rot' \<and> dims rot' cols rows \<and>
     (\<forall>x < cols. \<forall>j < rows. rot' ! x ! j =
        (if j = rows - 1 - y \<and> x0 \<le> x \<and> x < x0 + length cells then cells ! (x - x0)
         else rot ! x ! j))"
  using assms
proof (induction cells arbitrary: x0 rot)
  case Nil
  then show ?case by simp
next
  case (Cons c cs)
  let ?rot1 = "rot[x0 := (rot ! x0)[rows - 1 - y := c]]"
  have x0: "x0 < cols" using Cons.prems by simp
  have idx: "int rows - 1 - int y = int (rows - 1 - y)" using Cons.prems by simp
  have y': "rows - 1 - y < rows" using Cons.prems by arith
  have set1: "gridSet rot (int x0) (int rows - 1 - int y) c = Inr ?rot1"
    unfolding idx by (rule gridSet_dims [OF Cons.prems(1) x0 y'])
  have d1: "dims ?rot1 cols rows"
    using Cons.prems x0 by (intro dims_update) (simp_all add: dims_nth)
  from Cons.IH [OF d1 Cons.prems(2), of "Suc x0"] Cons.prems obtain rot' where
    r: "rotateRow rows y (Suc x0) cs ?rot1 = Inr rot'" "dims rot' cols rows"
    and p: "\<And>x j. x < cols \<Longrightarrow> j < rows \<Longrightarrow> rot' ! x ! j =
        (if j = rows - 1 - y \<and> Suc x0 \<le> x \<and> x < Suc x0 + length cs then cs ! (x - Suc x0)
         else ?rot1 ! x ! j)"
    by auto
  have "rot' ! x ! j =
        (if j = rows - 1 - y \<and> x0 \<le> x \<and> x < x0 + length (c # cs) then (c # cs) ! (x - x0)
         else rot ! x ! j)" if "x < cols" "j < rows" for x j
  proof (cases "x = x0")
    case True
    with that Cons.prems show ?thesis
      by (simp add: p dims_def)
  next
    case False
    with that show ?thesis
      by (auto simp: p nth_Cons')
  qed
  with r set1 show ?case by simp
qed

lemma rotateRows_spec:
  assumes "dims rot cols rows" "y0 + length rs \<le> rows" "\<forall>r \<in> set rs. length r = cols"
  shows "\<exists>rot'. rotateRows rows y0 rs rot = Inr rot' \<and> dims rot' cols rows \<and>
     (\<forall>x < cols. \<forall>j < rows. rot' ! x ! j =
        (if y0 \<le> rows - 1 - j \<and> rows - 1 - j < y0 + length rs then rs ! (rows - 1 - j - y0) ! x
         else rot ! x ! j))"
  using assms
proof (induction rs arbitrary: y0 rot)
  case Nil
  then show ?case by simp
next
  case (Cons r rs)
  have y0: "y0 < rows" using Cons.prems by simp
  have len: "0 + length r \<le> cols" using Cons.prems by simp
  from rotateRow_spec [OF Cons.prems(1) y0 len] obtain rot1 where
    r1: "rotateRow rows y0 0 r rot = Inr rot1" "dims rot1 cols rows"
    and p1: "\<And>x j. x < cols \<Longrightarrow> j < rows \<Longrightarrow> rot1 ! x ! j =
        (if j = rows - 1 - y0 \<and> x < length r then r ! x else rot ! x ! j)"
    by auto
  have "Suc y0 + length rs \<le> rows" "\<forall>r \<in> set rs. length r = cols"
    using Cons.prems by simp_all
  from Cons.IH [OF r1(2) this] obtain rot' where
    r2: "rotateRows rows (Suc y0) rs rot1 = Inr rot'" "dims rot' cols rows"
    and p2: "\<And>x j. x < cols \<Longrightarrow> j < rows \<Longrightarrow> rot' ! x ! j =
        (if Suc y0 \<le> rows - 1 - j \<and> rows - 1 - j < Suc y0 + length rs
         then rs ! (rows - 1 - j - Suc y0) ! x else rot1 ! x ! j)"
    by auto
  have lr: "length r = cols" using Cons.prems by simp
  have "rot' ! x ! j =
        (if y0 \<le> rows - 1 - j \<and> rows - 1 - j < y0 + length (r # rs)
         then (r # rs) ! (rows - 1 - j - y0) ! x else rot ! x ! j)" if "x < cols" "j < rows" for x j
  proof (cases "rows - 1 - j = y0")
    case True
    with that y0 have "j = rows - 1 - y0" by arith
    with that True lr show ?thesis by (simp add: p1 p2)
  next
    case False
    with that y0 have "j \<noteq> rows - 1 - y0" by arith
    with that False show ?thesis
      by (auto simp: p1 p2 nth_Cons' Suc_diff_Suc)
  qed
  with r1 r2 show ?case by simp
qed

lemma dims_rot90:
  "dims (rot90 s) (length (s ! 0)) (length s)"
  by (auto simp: dims_def rot90_def)

lemma rot90_nth:
  "x < length (s ! 0) \<Longrightarrow> j < length s \<Longrightarrow> rot90 s ! x ! j = s ! (length s - 1 - j) ! x"
  by (simp add: rot90_def)

lemma rotateRows_rot90:
  assumes "s \<noteq> []" "\<forall>r \<in> set s. length r = length (s ! 0)"
  shows "rotateRows (length s) 0 s (replicate (length (s ! 0)) (replicate (length s) 0)) =
     Inr (rot90 s)"
proof -
  let ?rows = "length s" and ?cols = "length (s ! 0)"
  have d0: "dims (replicate ?cols (replicate ?rows 0)) ?cols ?rows"
    by (simp add: dims_def)
  have le: "0 + length s \<le> ?rows" by simp
  from rotateRows_spec [OF d0 le assms(2)] obtain rot' where
    r: "rotateRows ?rows 0 s (replicate ?cols (replicate ?rows 0)) = Inr rot'"
       "dims rot' ?cols ?rows"
    and p0: "\<forall>x < ?cols. \<forall>j < ?rows. rot' ! x ! j =
        (if 0 \<le> ?rows - 1 - j \<and> ?rows - 1 - j < 0 + length s then s ! (?rows - 1 - j - 0) ! x
         else replicate ?cols (replicate ?rows 0) ! x ! j)"
    by blast
  have p: "rot' ! x ! j = s ! (?rows - 1 - j) ! x" if "x < ?cols" "j < ?rows" for x j
  proof -
    from that have "?rows - 1 - j < ?rows" by arith
    with p0 that show ?thesis by simp
  qed
  have "rot' = rot90 s"
  proof (rule grid_eqI [OF r(2) dims_rot90])
    fix x j assume "x < ?cols" "j < ?rows"
    then show "rot' ! x ! j = rot90 s ! x ! j"
      by (simp add: p rot90_nth)
  qed
  with r show ?thesis by simp
qed

lemma rotate_piece_rot90:
  assumes "currShape g \<noteq> []"
    and "\<forall>row \<in> set (currShape g). length row = length (currShape g ! 0)"
  shows "rotate_piece g =
           bindE (collides (g\<lparr>currShape := rot90 (currShape g)\<rparr>))
             (\<lambda>hit. Inr (if hit then g else g\<lparr>currShape := rot90 (currShape g)\<rparr>))"
  using assms(1)
  by (auto simp: rotate_piece_def Let_def idx_0 rotateRows_rot90 [OF assms] bindE_def
      split: sum.splits)

text \<open>\<open>rotate\<close> does not read \<open>gameOver\<close>: it does to a lost game what it does to a game
  in play (see claim C2).\<close>

lemma rotate_piece_gameOver:
  "rotate_piece (g\<lparr>gameOver := b\<rparr>) = map_sum id (\<lambda>g'. g'\<lparr>gameOver := b\<rparr>) (rotate_piece g)"
proof -
  have "collides (g\<lparr>gameOver := b, currShape := s\<rparr>) = collides (g\<lparr>currShape := s\<rparr>)" for s
    by (simp add: collides_def)
  then show ?thesis
    by (auto simp: rotate_piece_def Let_def bindE_def split: sum.splits)
qed

text \<open>
  Claim C6 (rotation rollback). For a shape with at least one row whose rows all have the
  length of the first, the loops of \<open>rotate\<close> build exactly the clockwise transform
  \<open>rot90\<close>, which satisfies \<open>rotated[x][rows-1-y] = shape[y][x]\<close>. If the transform
  collides at the current position, the state after \<open>rotate\<close> is the state before it, the
  shape and every other field; if it does not collide, the shape becomes the transform and
  nothing else changes. (A panic of the collision check is passed on.)
\<close>

theorem rotate_rollback:
  assumes "currShape g \<noteq> []"
    and "\<forall>row \<in> set (currShape g). length row = length (currShape g ! 0)"
  shows "rotate_piece g =
           bindE (collides (g\<lparr>currShape := rot90 (currShape g)\<rparr>))
             (\<lambda>hit. Inr (if hit then g else g\<lparr>currShape := rot90 (currShape g)\<rparr>)) \<and>
         (\<forall>y < length (currShape g). \<forall>x < length (currShape g ! 0).
            rot90 (currShape g) ! x ! (length (currShape g) - 1 - y) = currShape g ! y ! x)"
proof -
  have "rot90 (currShape g) ! x ! (length (currShape g) - 1 - y) = currShape g ! y ! x"
    if "y < length (currShape g)" "x < length (currShape g ! 0)" for x y
    using that by (simp add: rot90_nth)
  with rotate_piece_rot90 [OF assms] show ?thesis by blast
qed

theorem rotate_rollback_witness:
  "rotate_piece uprightAtWall = Inr uprightAtWall \<and>
   rotate_piece freshT = Inr (freshT\<lparr>currShape := [[1, 0], [1, 1], [1, 0]]\<rparr>)"
proof -
  have ra: "rot90 [[1], [1], [1], [1]] = [[1, 1, 1, 1]]"
    by (simp add: rot90_def upt_rec)
  have rb: "rot90 [[0, 1, 0], [1, 1, 1]] = [[1, 0], [1, 1], [1, 0]]"
    by (simp add: rot90_def upt_rec)
  have ca: "collides (uprightAtWall\<lparr>currShape := [[1, 1, 1, 1]]\<rparr>) = Inr True"
    by (subst collides_collidesAt)
       (simp_all add: uprightAtWall_def wf_zeroBoard collidesAt_zeroBoard Ex_less_Suc
          BoardWidth_def BoardHeight_def)
  have cb: "collides (freshT\<lparr>currShape := [[1, 0], [1, 1], [1, 0]]\<rparr>) = Inr False"
    by (subst collides_collidesAt)
       (simp_all add: freshT_def wf_zeroBoard collidesAt_zeroBoard Ex_less_Suc
          BoardWidth_def BoardHeight_def)
  have a: "rotate_piece uprightAtWall = Inr uprightAtWall"
    using rotate_rollback [of uprightAtWall] ca
    by (simp add: ra uprightAtWall_def)
  have b: "rotate_piece freshT = Inr (freshT\<lparr>currShape := [[1, 0], [1, 1], [1, 0]]\<rparr>)"
    using rotate_rollback [of freshT] cb
    by (simp add: rb freshT_def)
  from a b show ?thesis by simp
qed

subsection \<open>clearLines\<close>

lemma wf_board_dims: "wf_board b \<longleftrightarrow> dims b (nat BoardHeight) (nat BoardWidth)"
  by (auto simp: wf_board_def dims_def BoardHeight_def BoardWidth_def)

lemma wf_board_row: "wf_board b \<Longrightarrow> y < nat BoardHeight \<Longrightarrow> length (b ! y) = nat BoardWidth"
  by (simp add: wf_board_dims dims_nth)

lemma rowCompleteFrom_wf:
  assumes "wf_board b" "y < nat BoardHeight" "\<forall>x \<in> set xs. 0 \<le> x \<and> x < BoardWidth"
  shows "rowCompleteFrom b (int y) xs = Inr (\<forall>x \<in> set xs. b ! y ! nat x \<noteq> 0)"
  using assms(3)
proof (induction xs)
  case Nil
  show ?case by simp
next
  case (Cons x xs)
  then have "gridGet b (int y) x = Inr (b ! y ! nat x)"
    using wf_board_gridGet [OF assms(1), of "int y" x] assms(2) by simp
  with Cons show ?case by simp
qed

lemma rowComplete_wf:
  assumes "wf_board b" "y < nat BoardHeight"
  shows "rowComplete b (int y) = Inr (isComplete (b ! y))"
proof -
  have "(\<forall>x \<in> set [0..BoardWidth - 1]. b ! y ! nat x \<noteq> 0) = isComplete (b ! y)"
    unfolding isComplete_def
  proof
    assume a: "\<forall>x \<in> set [0..BoardWidth - 1]. b ! y ! nat x \<noteq> 0"
    show "\<forall>x < nat BoardWidth. b ! y ! x \<noteq> 0"
    proof (intro allI impI)
      fix x assume "x < nat BoardWidth"
      then have "int x \<in> set [0..BoardWidth - 1]" by auto
      with a have "b ! y ! nat (int x) \<noteq> 0" by blast
      then show "b ! y ! x \<noteq> 0" by simp
    qed
  next
    assume a: "\<forall>x < nat BoardWidth. b ! y ! x \<noteq> 0"
    show "\<forall>x \<in> set [0..BoardWidth - 1]. b ! y ! nat x \<noteq> 0"
    proof
      fix x assume "x \<in> set [0..BoardWidth - 1]"
      then have "nat x < nat BoardWidth" by auto
      with a show "b ! y ! nat x \<noteq> 0" by blast
    qed
  qed
  then show ?thesis
    by (simp add: rowComplete_def rowCompleteFrom_wf [OF assms])
qed

lemma length_fold_update: "length (fold (\<lambda>x r. r[nat x := f x]) xs r) = length r"
  by (induction xs arbitrary: r) simp_all

lemma fold_update_nth:
  assumes "\<forall>x \<in> set xs. 0 \<le> x" "i < length r"
  shows "fold (\<lambda>x r. r[nat x := f (nat x)]) xs r ! i = (if int i \<in> set xs then f i else r ! i)"
  using assms
proof (induction xs arbitrary: r)
  case Nil
  show ?case by simp
next
  case (Cons x xs)
  then have "fold (\<lambda>x r. r[nat x := f (nat x)]) xs (r[nat x := f (nat x)]) ! i =
      (if int i \<in> set xs then f i else r[nat x := f (nat x)] ! i)"
    by simp
  with Cons.prems show ?case
    by (auto simp: nth_list_update)
qed

lemma fold_update_all:
  assumes "length r = nat BoardWidth" "length s = nat BoardWidth"
  shows "fold (\<lambda>x r. r[nat x := s ! nat x]) [0..BoardWidth - 1] r = s"
proof (rule nth_equalityI)
  show "length (fold (\<lambda>x r. r[nat x := s ! nat x]) [0..BoardWidth - 1] r) = length s"
    using assms by (simp add: length_fold_update)
next
  fix i assume "i < length (fold (\<lambda>x r. r[nat x := s ! nat x]) [0..BoardWidth - 1] r)"
  then have i: "i < length r" by (simp add: length_fold_update)
  then have "int i \<in> set [0..BoardWidth - 1]" using assms by auto
  with fold_update_nth [of "[0..BoardWidth - 1]" i r "\<lambda>n. s ! n"] i
  show "fold (\<lambda>x r. r[nat x := s ! nat x]) [0..BoardWidth - 1] r ! i = s ! i"
    by simp
qed

lemma wf_board_update:
  assumes "wf_board b" "length r = nat BoardWidth"
  shows "wf_board (b[y := r])"
  using assms by (simp add: wf_board_dims dims_update)

lemma gridSet_wf:
  assumes "wf_board b" "y < nat BoardHeight" "0 \<le> x" "x < BoardWidth"
  shows "gridSet b (int y) x v = Inr (b[y := (b ! y)[nat x := v]])"
  using assms gridSet_dims [of b "nat BoardHeight" "nat BoardWidth" y "nat x" v]
  by (simp add: wf_board_dims)

lemma copyCells_spec:
  assumes "wf_board b" "0 < ry" "ry < nat BoardHeight" "\<forall>x \<in> set xs. 0 \<le> x \<and> x < BoardWidth"
  shows "copyCells b (int ry) xs =
     Inr (b[ry := fold (\<lambda>x r. r[nat x := b ! (ry - 1) ! nat x]) xs (b ! ry)])"
  using assms(1,4)
proof (induction xs arbitrary: b)
  case Nil
  show ?case by simp
next
  case (Cons x xs)
  let ?v = "b ! (ry - 1) ! nat x"
  let ?b1 = "b[ry := (b ! ry)[nat x := ?v]]"
  have x: "0 \<le> x" "x < BoardWidth" using Cons.prems by simp_all
  have ry1: "int ry - 1 = int (ry - 1)" using assms(2) by simp
  have get: "gridGet b (int ry - 1) x = Inr ?v"
    unfolding ry1 using wf_board_gridGet [OF Cons.prems(1), of "int (ry - 1)" x] assms(3) x
    by simp
  have set1: "gridSet b (int ry) x ?v = Inr ?b1"
    by (rule gridSet_wf [OF Cons.prems(1) assms(3) x])
  have ryl: "ry < length b" using Cons.prems(1) assms(3) by (simp add: wf_board_dims dims_def)
  have wf1: "wf_board ?b1"
    using Cons.prems(1) assms(3) by (intro wf_board_update) (simp_all add: wf_board_row)
  have src: "?b1 ! (ry - 1) = b ! (ry - 1)" using assms(2) by simp
  have "copyCells ?b1 (int ry) xs =
      Inr (?b1[ry := fold (\<lambda>x r. r[nat x := ?b1 ! (ry - 1) ! nat x]) xs (?b1 ! ry)])"
    using Cons.prems by (intro Cons.IH [OF wf1]) simp
  then have "copyCells ?b1 (int ry) xs =
      Inr (?b1[ry := fold (\<lambda>x r. r[nat x := b ! (ry - 1) ! nat x]) xs (?b1 ! ry)])"
    by (simp only: src)
  then show ?case
    using get set1 ryl by simp
qed

lemma copyRow_wf:
  assumes "wf_board b" "0 < ry" "ry < nat BoardHeight"
  shows "copyCells b (int ry) [0..BoardWidth - 1] = Inr (b[ry := b ! (ry - 1)])"
proof -
  have "\<forall>x \<in> set [0..BoardWidth - 1]. 0 \<le> x \<and> x < BoardWidth" by auto
  from copyCells_spec [OF assms this] show ?thesis
    using assms by (simp add: fold_update_all wf_board_row)
qed

lemma clearCells_spec:
  assumes "wf_board b" "\<forall>x \<in> set xs. 0 \<le> x \<and> x < BoardWidth"
  shows "clearCells b xs = Inr (b[0 := fold (\<lambda>x r. r[nat x := 0]) xs (b ! 0)])"
  using assms
proof (induction xs arbitrary: b)
  case Nil
  show ?case by simp
next
  case (Cons x xs)
  let ?b1 = "b[0 := (b ! 0)[nat x := 0]]"
  have x: "0 \<le> x" "x < BoardWidth" using Cons.prems by simp_all
  have h: "0 < nat BoardHeight" by (simp add: BoardHeight_def)
  have set1: "gridSet b 0 x 0 = Inr ?b1"
    using gridSet_wf [OF Cons.prems(1) h x] by simp
  have l: "0 < length b" using Cons.prems(1) h by (simp add: wf_board_dims dims_def)
  have wf1: "wf_board ?b1"
    using Cons.prems(1) h by (intro wf_board_update) (simp_all add: wf_board_row)
  have "clearCells ?b1 xs = Inr (?b1[0 := fold (\<lambda>x r. r[nat x := 0]) xs (?b1 ! 0)])"
    using Cons.prems by (intro Cons.IH [OF wf1]) simp
  then show ?case using set1 l by simp
qed

lemma clearRow_wf:
  assumes "wf_board b"
  shows "clearCells b [0..BoardWidth - 1] = Inr (b[0 := zeroRow])"
proof -
  have "\<forall>x \<in> set [0..BoardWidth - 1]. 0 \<le> x \<and> x < BoardWidth" by auto
  moreover have "fold (\<lambda>x r. r[nat x := zeroRow ! nat x]) [0..BoardWidth - 1] (b ! 0) = zeroRow"
    using assms by (intro fold_update_all) (simp_all add: wf_board_row zeroRow_def BoardHeight_def)
  moreover have "fold (\<lambda>x r. r[nat x := zeroRow ! nat x]) [0..BoardWidth - 1] (b ! 0) =
      fold (\<lambda>x r. r[nat x := 0]) [0..BoardWidth - 1] (b ! 0)"
    by (rule fold_cong) (auto simp: zeroRow_def)
  ultimately show ?thesis using clearCells_spec [OF assms] by simp
qed

lemma wf_board_length: "wf_board b \<Longrightarrow> length b = nat BoardHeight"
  by (simp add: wf_board_dims dims_def)

lemma wf_board_subset:
  assumes "wf_board b" "length c = length b" "set c \<subseteq> set b"
  shows "wf_board c"
  using assms unfolding wf_board_def by auto

lemma shiftRows_wf:
  assumes "wf_board b" "n < nat BoardHeight"
  shows "shiftRows b (rev [1..int n]) = Inr (b ! 0 # take n b @ drop (Suc n) b)"
  using assms
proof (induction n arbitrary: b)
  case 0
  then have "0 < length b" by (simp add: wf_board_length)
  then have "b ! 0 # drop (Suc 0) b = b"
    using Cons_nth_drop_Suc [of 0 b] by simp
  then show ?case by simp
next
  case (Suc n)
  let ?b1 = "b[Suc n := b ! n]"
  have l: "Suc n < length b" using Suc.prems by (simp add: wf_board_length)
  have up: "[1..int (Suc n)] = [1..int n] @ [int (Suc n)]"
    using upto_rec2 [of 1 "int (Suc n)"] by simp
  have c: "copyCells b (int (Suc n)) [0..BoardWidth - 1] = Inr ?b1"
    using copyRow_wf [OF Suc.prems(1) _ Suc.prems(2)] by simp
  have wf1: "wf_board ?b1"
    using Suc.prems by (intro wf_board_update) (simp_all add: wf_board_row)
  have ih: "shiftRows ?b1 (rev [1..int n]) = Inr (?b1 ! 0 # take n ?b1 @ drop (Suc n) ?b1)"
    using Suc.prems by (intro Suc.IH [OF wf1]) simp
  have d: "drop (Suc n) ?b1 = b ! n # drop (Suc (Suc n)) b"
    using l Cons_nth_drop_Suc [of "Suc n" ?b1] by simp
  have t: "take (Suc n) b = take n b @ [b ! n]"
    using l by (simp add: take_Suc_conv_app_nth)
  have e: "?b1 ! 0 = b ! 0" "take n ?b1 = take n b" by simp_all
  have "shiftRows b (rev [1..int (Suc n)]) = shiftRows ?b1 (rev [1..int n])"
    by (simp only: up rev_append rev.simps append.simps shiftRows.simps c bindE_Inr)
  also have "\<dots> = Inr (b ! 0 # take (Suc n) b @ drop (Suc (Suc n)) b)"
    by (simp only: ih e d t append_assoc append.simps)
  finally show ?case .
qed

lemma wf_shifted:
  assumes "wf_board b" "n < nat BoardHeight"
  shows "wf_board (b ! 0 # take n b @ drop (Suc n) b)"
proof (rule wf_board_subset [OF assms(1)])
  have l: "n < length b" using assms by (simp add: wf_board_length)
  then show "length (b ! 0 # take n b @ drop (Suc n) b) = length b" by simp
  from l have "0 < length b" by arith
  then have "b ! 0 \<in> set b" by (rule nth_mem)
  moreover have "set (take n b) \<subseteq> set b" by (rule set_take_subset)
  moreover have "set (drop (Suc n) b) \<subseteq> set b" by (rule set_drop_subset)
  ultimately show "set (b ! 0 # take n b @ drop (Suc n) b) \<subseteq> set b"
    by (simp only: set_simps set_append Un_subset_iff insert_subset)
qed

lemma removeLine_wf:
  assumes "wf_board b" "n < nat BoardHeight"
  shows "removeLine b (int n) = Inr (removed b n)"
proof -
  let ?b2 = "b ! 0 # take n b @ drop (Suc n) b"
  have "removeLine b (int n) = clearCells ?b2 [0..BoardWidth - 1]"
    by (simp only: removeLine_def shiftRows_wf [OF assms] bindE_Inr)
  also have "\<dots> = Inr (?b2[0 := zeroRow])"
    by (rule clearRow_wf [OF wf_shifted [OF assms]])
  also have "?b2[0 := zeroRow] = removed b n"
    by (simp only: removed_def list_update_code)
  finally show ?thesis .
qed

lemma wf_board_removed:
  assumes "wf_board b" "n < nat BoardHeight"
  shows "wf_board (removed b n)"
proof -
  have "wf_board ((b ! 0 # take n b @ drop (Suc n) b)[0 := zeroRow])"
    by (rule wf_board_update [OF wf_shifted [OF assms]]) (simp add: zeroRow_def)
  then show ?thesis by (simp only: removed_def list_update_code)
qed

lemma not_isComplete_zeroRow: "\<not> isComplete zeroRow"
proof
  assume "isComplete zeroRow"
  then have "zeroRow ! 0 \<noteq> 0" by (simp add: isComplete_def BoardWidth_def)
  then show False by (simp add: zeroRow_def BoardWidth_def)
qed

lemma clearScan_wf:
  assumes "wf_board b" "n \<le> nat BoardHeight"
  shows "clearScan (int n - 1) b c =
     Some (Inr (replicate (length (filter isComplete (take n b))) zeroRow @
                filter (\<lambda>r. \<not> isComplete r) (take n b) @ drop n b,
                c + length (filter isComplete (take n b))))"
  using assms
proof (induction "length (filter isComplete (take n b)) + n" arbitrary: b n c rule: less_induct)
  case less
  show ?case
  proof (cases n)
    case 0
    then show ?thesis by (subst clearScan.simps) simp
  next
    case (Suc y)
    then have y: "y < nat BoardHeight" using less.prems by simp
    then have l: "y < length b" using less.prems by (simp add: wf_board_length)
    have tk: "take (Suc y) b = take y b @ [b ! y]"
      using l by (simp add: take_Suc_conv_app_nth)
    have rc: "rowComplete b (int y) = Inr (isComplete (b ! y))"
      by (rule rowComplete_wf [OF less.prems(1) y])
    show ?thesis
    proof (cases "isComplete (b ! y)")
      case True
      let ?b' = "removed b y"
      have wf': "wf_board ?b'" by (rule wf_board_removed [OF less.prems(1) y])
      have tk': "take (Suc y) ?b' = zeroRow # take y b"
        using l by (simp add: removed_def)
      have dr': "drop (Suc y) ?b' = drop (Suc y) b"
        using l by (simp add: removed_def)
      have "length (filter isComplete (take (Suc y) ?b')) + Suc y <
            length (filter isComplete (take n b)) + n"
        using True by (simp add: Suc tk tk' not_isComplete_zeroRow)
      from less.hyps [OF this wf', of "Suc c"] less.prems(2)
      have "clearScan (int y) ?b' (Suc c) =
          Some (Inr (replicate (length (filter isComplete (take y b))) zeroRow @
                zeroRow # filter (\<lambda>r. \<not> isComplete r) (take y b) @ drop (Suc y) b,
                Suc c + length (filter isComplete (take y b))))"
        by (simp add: Suc tk' dr' not_isComplete_zeroRow)
      then show ?thesis
        using True
        by (subst clearScan.simps)
           (simp add: Suc rc removeLine_wf [OF less.prems(1) y] tk replicate_append_same)
    next
      case False
      have "length (filter isComplete (take y b)) + y < length (filter isComplete (take n b)) + n"
        using False by (simp add: Suc tk)
      from less.hyps [OF this less.prems(1), of c] y
      have "clearScan (int y - 1) b c =
          Some (Inr (replicate (length (filter isComplete (take y b))) zeroRow @
                filter (\<lambda>r. \<not> isComplete r) (take y b) @ drop y b,
                c + length (filter isComplete (take y b))))"
        by simp
      then show ?thesis
        using False l
        by (subst clearScan.simps)
           (simp add: Suc rc tk Cons_nth_drop_Suc)
    qed
  qed
qed

lemma clearScan_board:
  assumes "wf_board b"
  shows "clearScan (BoardHeight - 1) b 0 =
     Some (Inr (replicate (length (filter isComplete b)) zeroRow @
                filter (\<lambda>r. \<not> isComplete r) b, length (filter isComplete b)))"
proof -
  have l: "length b = nat BoardHeight" by (rule wf_board_length [OF assms])
  have h: "int (nat BoardHeight) - 1 = BoardHeight - 1" by (simp add: BoardHeight_def)
  from clearScan_wf [OF assms order_refl, of 0] show ?thesis
    unfolding h by (simp add: l [symmetric])
qed

lemma filter_none_complete:
  assumes "length (filter isComplete b) = 0"
  shows "filter (\<lambda>r. \<not> isComplete r) b = b"
proof -
  from assms have "\<forall>r \<in> set b. \<not> isComplete r"
    by (simp add: filter_empty_conv)
  then show ?thesis by (simp add: filter_id_conv)
qed

lemma idx_scoreTable:
  "idx scoreTable (int k) = (if k \<le> 4 then Inr (scoreTable ! k) else Inl IndexOutOfRange)"
  by (auto simp: idx_def scoreTable_def)

lemma clearLines_wf:
  assumes "wf_board (board g)"
  shows "clearLines g =
     (let k = length (filter isComplete (board g));
          b' = replicate k zeroRow @ filter (\<lambda>r. \<not> isComplete r) (board g)
      in if k = 0 then Some (Inr g)
         else if k \<le> 4 then
           Some (Inr (g\<lparr>board := b', lines := wrapInt (lines g + int k),
                         score := wrapInt (score g + scoreTable ! k * level g),
                         level := wrapInt (lines g + int k) sdiv 10 + 1\<rparr>))
         else Some (Inl IndexOutOfRange))"
proof (cases "length (filter isComplete (board g)) = 0")
  case True
  then show ?thesis
    using filter_none_complete [OF True]
    by (simp add: clearLines_def clearScan_board [OF assms])
next
  case False
  have "wrapInt (wrapInt l sdiv 10 + 1) = wrapInt l sdiv 10 + 1" for l
    by (rule wrapInt_id [OF inInt_level [OF inInt_wrapInt]])
  with False show ?thesis
    by (simp add: clearLines_def clearScan_board [OF assms] idx_scoreTable Let_def
        wrapInt_add_wrapInt)
qed

lemma isComplete_row:
  "isComplete [a0, a1, a2, a3, a4, a5, a6, a7, a8, a9] \<longleftrightarrow>
     a0 \<noteq> 0 \<and> a1 \<noteq> 0 \<and> a2 \<noteq> 0 \<and> a3 \<noteq> 0 \<and> a4 \<noteq> 0 \<and>
     a5 \<noteq> 0 \<and> a6 \<noteq> 0 \<and> a7 \<noteq> 0 \<and> a8 \<noteq> 0 \<and> a9 \<noteq> 0"
  by (auto simp: isComplete_def BoardWidth_def eval_nat_numeral All_less_Suc)

text \<open>
  Claim C5 (postcondition of \<open>clearLines\<close>). The claim says that the score increases by
  the table entry times the level, for every state. The score is an \<open>int\<close> of Go, and
  the addition wraps. In \<open>scoreAtLimit\<close> the bottom row is complete and the score is 7
  below the largest \<open>int\<close>: the row is removed, \<open>lines\<close> and \<open>level\<close> are as the
  claim says, and the score, which the claim puts at 9223372046854775900, is negative.
\<close>

theorem clearLines_score_wraps:
  "wf_board (board scoreAtLimit) \<and>
   length (filter isComplete (board scoreAtLimit)) = 1 \<and>
   clearLines scoreAtLimit =
     Some (Inr (scoreAtLimit\<lparr>board := replicate 19 [0, 0, 0, 0, 0, 0, 0, 0, 0, 0] @
                    [[0, 0, 0, 0, 0, 0, 0, 0, 3, 0]],
                  lines := 1000000001, score := - 9223372026854775716, level := 100000001\<rparr>)) \<and>
   score scoreAtLimit + [0, 100, 300, 500, 800] ! 1 * level scoreAtLimit = 9223372046854775900"
proof -
  have wf: "wf_board (board scoreAtLimit)"
    by (simp add: scoreAtLimit_def wf_board_def BoardHeight_def BoardWidth_def)
  have k: "filter isComplete (board scoreAtLimit) = [[1, 1, 1, 1, 2, 2, 2, 3, 3, 3]]"
    by (simp add: scoreAtLimit_def isComplete_row)
  have n: "filter (\<lambda>r. \<not> isComplete r) (board scoreAtLimit) =
      replicate 18 [0, 0, 0, 0, 0, 0, 0, 0, 0, 0] @ [[0, 0, 0, 0, 0, 0, 0, 0, 3, 0]]"
    by (simp add: scoreAtLimit_def isComplete_row)
  have z: "zeroRow # replicate 18 [0, 0, 0, 0, 0, 0, 0, 0, 0, 0] @ rest =
      replicate 19 [0, 0, 0, 0, 0, 0, 0, 0, 0, 0] @ rest" for rest
    by (simp add: zeroRow_def BoardWidth_def eval_nat_numeral)
  have "clearLines scoreAtLimit =
      Some (Inr (scoreAtLimit\<lparr>board := zeroRow # replicate 18 [0, 0, 0, 0, 0, 0, 0, 0, 0, 0] @
                    [[0, 0, 0, 0, 0, 0, 0, 0, 3, 0]],
                  lines := wrapInt (lines scoreAtLimit + 1),
                  score := wrapInt (score scoreAtLimit + 100 * level scoreAtLimit),
                  level := wrapInt (lines scoreAtLimit + 1) sdiv 10 + 1\<rparr>))"
    using clearLines_wf [OF wf] by (simp add: Let_def k n scoreTable_def)
  also have "\<dots> = Some (Inr (scoreAtLimit\<lparr>board := replicate 19 [0, 0, 0, 0, 0, 0, 0, 0, 0, 0] @
                    [[0, 0, 0, 0, 0, 0, 0, 0, 3, 0]],
                  lines := 1000000001, score := - 9223372026854775716, level := 100000001\<rparr>))"
    unfolding z by (simp add: scoreAtLimit_def wrapInt_def signed_divide_int_def)
  finally show ?thesis using wf k by (simp add: scoreAtLimit_def)
qed

text \<open>
  Claim C5 as the code has it. On a board of the engine's dimensions the scan returns, and
  what it returns is the board without its complete rows: the other rows in their order,
  moved down, under as many empty rows as rows were removed; the counter is the number
  \<open>k\<close> of complete rows, however they are stacked. If \<open>k = 0\<close> the state is unchanged.
  If \<open>1 \<le> k \<le> 4\<close>, \<open>lines\<close> becomes \<open>lines + k\<close> and \<open>score\<close> becomes \<open>score\<close>
  plus the table entry for \<open>k\<close> times the level before the call, each reduced to the range
  of \<open>int\<close>, and \<open>level\<close> becomes \<open>lines/10 + 1\<close> of the new \<open>lines\<close>. Whenever the
  two sums lie in the range of \<open>int\<close>, they are the new values as they stand.
  (The table has five entries; claim C10 is about \<open>k > 4\<close>.)
\<close>

theorem clearLines_postcondition:
  assumes "wf_board (board g)"
  shows "let k = length (filter isComplete (board g));
             b' = replicate k zeroRow @ filter (\<lambda>r. \<not> isComplete r) (board g);
             l' = lines g + int k;
             s' = score g + [0, 100, 300, 500, 800] ! k * level g
         in clearScan (BoardHeight - 1) (board g) 0 = Some (Inr (b', k)) \<and>
            (k = 0 \<longrightarrow> clearLines g = Some (Inr g)) \<and>
            (0 < k \<and> k \<le> 4 \<longrightarrow>
               clearLines g =
                 Some (Inr (g\<lparr>board := b', lines := wrapInt l', score := wrapInt s',
                               level := wrapInt l' sdiv 10 + 1\<rparr>))) \<and>
            (0 < k \<and> k \<le> 4 \<and> inInt l' \<and> inInt s' \<longrightarrow>
               clearLines g =
                 Some (Inr (g\<lparr>board := b', lines := l', score := s',
                               level := l' sdiv 10 + 1\<rparr>)))"
proof -
  have "let k = length (filter isComplete (board g));
            b' = replicate k zeroRow @ filter (\<lambda>r. \<not> isComplete r) (board g);
            l' = lines g + int k;
            s' = score g + scoreTable ! k * level g
        in clearScan (BoardHeight - 1) (board g) 0 = Some (Inr (b', k)) \<and>
           (k = 0 \<longrightarrow> clearLines g = Some (Inr g)) \<and>
           (0 < k \<and> k \<le> 4 \<longrightarrow>
              clearLines g =
                Some (Inr (g\<lparr>board := b', lines := wrapInt l', score := wrapInt s',
                              level := wrapInt l' sdiv 10 + 1\<rparr>))) \<and>
           (0 < k \<and> k \<le> 4 \<and> inInt l' \<and> inInt s' \<longrightarrow>
              clearLines g =
                Some (Inr (g\<lparr>board := b', lines := l', score := s',
                              level := l' sdiv 10 + 1\<rparr>)))"
    using clearScan_board [OF assms] clearLines_wf [OF assms]
    by (simp add: Let_def wrapInt_id)
  then show ?thesis by (simp only: scoreTable_def)
qed

theorem clearLines_postcondition_witness:
  "wf_board (board twoRowsFull) \<and>
   clearLines twoRowsFull =
     Some (Inr (twoRowsFull\<lparr>board := replicate 18 [0, 0, 0, 0, 0, 0, 0, 0, 0, 0] @
                    [[0, 0, 0, 3, 0, 0, 0, 0, 0, 0], [5, 5, 0, 0, 0, 0, 0, 0, 0, 6]],
                  lines := 30, score := 1900, level := 4\<rparr>))"
proof -
  have wf: "wf_board (board twoRowsFull)"
    by (simp add: twoRowsFull_def wf_board_def BoardHeight_def BoardWidth_def)
  have k: "filter isComplete (board twoRowsFull) =
      [[1, 1, 1, 1, 2, 2, 2, 2, 3, 3], [7, 7, 7, 7, 4, 4, 4, 4, 1, 1]]"
    by (simp add: twoRowsFull_def isComplete_row)
  have n: "filter (\<lambda>r. \<not> isComplete r) (board twoRowsFull) =
      replicate 16 [0, 0, 0, 0, 0, 0, 0, 0, 0, 0] @
      [[0, 0, 0, 3, 0, 0, 0, 0, 0, 0], [5, 5, 0, 0, 0, 0, 0, 0, 0, 6]]"
    by (simp add: twoRowsFull_def isComplete_row)
  have z: "zeroRow # zeroRow # replicate 16 [0, 0, 0, 0, 0, 0, 0, 0, 0, 0] @ rest =
      replicate 18 [0, 0, 0, 0, 0, 0, 0, 0, 0, 0] @ rest" for rest
    by (simp add: zeroRow_def BoardWidth_def eval_nat_numeral)
  have r: "inInt (lines twoRowsFull + 2)" "inInt (score twoRowsFull + 300 * level twoRowsFull)"
    by (simp_all add: twoRowsFull_def inInt_def)
  have "clearLines twoRowsFull =
      Some (Inr (twoRowsFull\<lparr>board := zeroRow # zeroRow #
                    replicate 16 [0, 0, 0, 0, 0, 0, 0, 0, 0, 0] @
                    [[0, 0, 0, 3, 0, 0, 0, 0, 0, 0], [5, 5, 0, 0, 0, 0, 0, 0, 0, 6]],
                  lines := lines twoRowsFull + 2, score := score twoRowsFull + 300 * level twoRowsFull,
                  level := (lines twoRowsFull + 2) sdiv 10 + 1\<rparr>))"
    using clearLines_postcondition [OF wf] r
    by (simp add: Let_def k n wrapInt_id [OF r(1)] wrapInt_id [OF r(2)])
  also have "\<dots> = Some (Inr (twoRowsFull\<lparr>board := replicate 18 [0, 0, 0, 0, 0, 0, 0, 0, 0, 0] @
                    [[0, 0, 0, 3, 0, 0, 0, 0, 0, 0], [5, 5, 0, 0, 0, 0, 0, 0, 0, 6]],
                  lines := 30, score := 1900, level := 4\<rparr>))"
    unfolding z by (simp add: twoRowsFull_def signed_divide_int_def)
  finally show ?thesis using wf by simp
qed

subsection \<open>lockPiece and the score table\<close>

lemma lockRow_spec:
  assumes "wf_board b"
  shows "\<exists>b'. lockRow cp px py y x cells b = Inr b' \<and> wf_board b' \<and>
     (\<forall>i. int i \<noteq> py + int y \<longrightarrow> b' ! i = b ! i)"
  using assms
proof (induction cells arbitrary: x b)
  case Nil
  then show ?case by simp
next
  case (Cons cell cells)
  let ?boardY = "py + int y" and ?boardX = "px + int x"
  show ?case
  proof (cases "cell = 1 \<and> ?boardY \<ge> 0 \<and> ?boardY < BoardHeight \<and> ?boardX \<ge> 0 \<and> ?boardX < BoardWidth")
    case True
    let ?b1 = "b[nat ?boardY := (b ! nat ?boardY)[nat ?boardX := cp + 1]]"
    have ny: "nat ?boardY < nat BoardHeight" using True by simp
    have set1: "gridSet b ?boardY ?boardX (cp + 1) = Inr ?b1"
      using gridSet_wf [OF Cons.prems ny, of ?boardX "cp + 1"] True by simp
    have wf1: "wf_board ?b1"
      using Cons.prems ny by (intro wf_board_update) (simp_all add: wf_board_row)
    from Cons.IH [OF wf1, of "Suc x"] obtain b' where
      b': "lockRow cp px py y (Suc x) cells ?b1 = Inr b'" "wf_board b'"
          "\<forall>i. int i \<noteq> ?boardY \<longrightarrow> b' ! i = ?b1 ! i"
      by blast
    have "b' ! i = b ! i" if "int i \<noteq> ?boardY" for i
    proof -
      from that True have "i \<noteq> nat ?boardY" by auto
      with b'(3) that show ?thesis by simp
    qed
    with b'(1,2) set1 True show ?thesis by (simp add: Let_def)
  next
    case False
    from Cons.IH [OF Cons.prems, of "Suc x"] obtain b' where
      "lockRow cp px py y (Suc x) cells b = Inr b'" "wf_board b'"
      "\<forall>i. int i \<noteq> ?boardY \<longrightarrow> b' ! i = b ! i"
      by blast
    with False show ?thesis by (auto simp: Let_def)
  qed
qed

lemma lockRows_spec:
  assumes "wf_board b"
  shows "\<exists>b'. lockRows cp px py y0 rows b = Inr b' \<and> wf_board b' \<and>
     (\<forall>i. int i < py + int y0 \<or> py + int y0 + int (length rows) \<le> int i \<longrightarrow> b' ! i = b ! i)"
  using assms
proof (induction rows arbitrary: y0 b)
  case Nil
  then show ?case by simp
next
  case (Cons row rows)
  from lockRow_spec [OF Cons.prems, of cp px py y0 0 row] obtain b1 where
    b1: "lockRow cp px py y0 0 row b = Inr b1" "wf_board b1"
        "\<forall>i. int i \<noteq> py + int y0 \<longrightarrow> b1 ! i = b ! i"
    by blast
  from Cons.IH [OF b1(2), of "Suc y0"] obtain b' where
    b': "lockRows cp px py (Suc y0) rows b1 = Inr b'" "wf_board b'"
        "\<forall>i. int i < py + int (Suc y0) \<or> py + int (Suc y0) + int (length rows) \<le> int i
            \<longrightarrow> b' ! i = b1 ! i"
    by blast
  have "b' ! i = b ! i"
    if "int i < py + int y0 \<or> py + int y0 + int (length (row # rows)) \<le> int i" for i
  proof -
    from that have "int i < py + int (Suc y0) \<or> py + int (Suc y0) + int (length rows) \<le> int i"
      by auto
    with b'(3) have "b' ! i = b1 ! i" by blast
    moreover from that have "int i \<noteq> py + int y0" by auto
    with b1(3) have "b1 ! i = b ! i" by blast
    ultimately show ?thesis by simp
  qed
  with b1(1) b'(1,2) show ?case by simp
qed

lemma window_card:
  "card {i::nat. a \<le> int i \<and> int i < a + int n} \<le> n"
proof -
  have "{i::nat. a \<le> int i \<and> int i < a + int n} \<subseteq> (\<lambda>j. nat (a + int j)) ` {..<n}"
  proof
    fix i assume "i \<in> {i::nat. a \<le> int i \<and> int i < a + int n}"
    then have i: "a \<le> int i" "int i < a + int n" by auto
    then have "nat (int i - a) < n" by auto
    moreover have "i = nat (a + int (nat (int i - a)))" using i by auto
    ultimately show "i \<in> (\<lambda>j. nat (a + int j)) ` {..<n}" by blast
  qed
  then have "card {i::nat. a \<le> int i \<and> int i < a + int n} \<le> card ((\<lambda>j. nat (a + int j)) ` {..<n})"
    by (intro card_mono) simp_all
  also have "\<dots> \<le> card {..<n}" by (rule card_image_le) simp
  finally show ?thesis by simp
qed

lemma complete_rows_bound:
  assumes "length b' = length b"
    and "\<forall>i. int i < a \<or> a + int n \<le> int i \<longrightarrow> b' ! i = b ! i"
    and "\<forall>r \<in> set b. \<not> isComplete r"
  shows "length (filter isComplete b') \<le> n"
proof -
  have "{i. i < length b' \<and> isComplete (b' ! i)} \<subseteq> {i::nat. a \<le> int i \<and> int i < a + int n}"
  proof
    fix i assume "i \<in> {i. i < length b' \<and> isComplete (b' ! i)}"
    then have i: "i < length b'" "isComplete (b' ! i)" by auto
    have "\<not> (int i < a \<or> a + int n \<le> int i)"
    proof
      assume "int i < a \<or> a + int n \<le> int i"
      with assms(2) have "b' ! i = b ! i" by blast
      moreover have "b ! i \<in> set b" using i(1) assms(1) by simp
      ultimately show False using assms(3) i(2) by auto
    qed
    then show "i \<in> {i::nat. a \<le> int i \<and> int i < a + int n}" by auto
  qed
  moreover have "finite {i::nat. a \<le> int i \<and> int i < a + int n}"
  proof (rule finite_subset)
    show "{i::nat. a \<le> int i \<and> int i < a + int n} \<subseteq> {..< nat (a + int n)}" by auto
  qed simp
  ultimately have "card {i. i < length b' \<and> isComplete (b' ! i)} \<le>
      card {i::nat. a \<le> int i \<and> int i < a + int n}"
    by (rule card_mono [rotated])
  with window_card [of a n] show ?thesis
    by (simp add: length_filter_conv_card)
qed

lemma lockPiece_wf:
  assumes "wf_board (board g)"
  shows "\<exists>b'. lockPiece g = Inr (g\<lparr>board := b'\<rparr>) \<and> wf_board b' \<and>
     (\<forall>i. int i < pieceY g \<or> pieceY g + int (length (currShape g)) \<le> int i
          \<longrightarrow> b' ! i = board g ! i)"
proof -
  from lockRows_spec [OF assms, of "currPiece g" "pieceX g" "pieceY g" 0 "currShape g"]
  obtain b' where "lockRows (currPiece g) (pieceX g) (pieceY g) 0 (currShape g) (board g) = Inr b'"
    "wf_board b'"
    "\<forall>i. int i < pieceY g \<or> pieceY g + int (length (currShape g)) \<le> int i
          \<longrightarrow> b' ! i = board g ! i"
    by auto
  then show ?thesis by (auto simp: lockPiece_def)
qed

text \<open>
  Claim C10 (the index into the score table). On a board of the engine's dimensions,
  \<open>clearLines\<close> panics with an index out of range exactly when more than four rows are
  complete. When a piece whose shape has at most four rows is locked onto a board without
  complete rows, \<open>lockPiece\<close> succeeds, the scan that follows counts at most four rows,
  the table access is in bounds and \<open>clearLines\<close> returns a state.
\<close>

theorem scoreTable_index_in_bounds:
  assumes "wf_board (board g)"
  shows "(clearLines g = Some (Inl IndexOutOfRange) \<longleftrightarrow>
            4 < length (filter isComplete (board g))) \<and>
         (length (currShape g) \<le> 4 \<and> (\<forall>r \<in> set (board g). \<not> isComplete r) \<longrightarrow>
            (\<exists>g1 b' k g2. lockPiece g = Inr g1 \<and>
               clearScan (BoardHeight - 1) (board g1) 0 = Some (Inr (b', k)) \<and> k \<le> 4 \<and>
               idx scoreTable (int k) = Inr (scoreTable ! k) \<and>
               clearLines g1 = Some (Inr g2)))"
proof
  show "clearLines g = Some (Inl IndexOutOfRange) \<longleftrightarrow> 4 < length (filter isComplete (board g))"
    by (auto simp: clearLines_wf [OF assms] Let_def)
next
  show "length (currShape g) \<le> 4 \<and> (\<forall>r \<in> set (board g). \<not> isComplete r) \<longrightarrow>
            (\<exists>g1 b' k g2. lockPiece g = Inr g1 \<and>
               clearScan (BoardHeight - 1) (board g1) 0 = Some (Inr (b', k)) \<and> k \<le> 4 \<and>
               idx scoreTable (int k) = Inr (scoreTable ! k) \<and>
               clearLines g1 = Some (Inr g2))"
  proof
    assume a: "length (currShape g) \<le> 4 \<and> (\<forall>r \<in> set (board g). \<not> isComplete r)"
    from lockPiece_wf [OF assms] obtain b1 where
      b1: "lockPiece g = Inr (g\<lparr>board := b1\<rparr>)" "wf_board b1"
          "\<forall>i. int i < pieceY g \<or> pieceY g + int (length (currShape g)) \<le> int i
              \<longrightarrow> b1 ! i = board g ! i"
      by blast
    let ?g1 = "g\<lparr>board := b1\<rparr>"
    let ?k = "length (filter isComplete b1)"
    have "length b1 = length (board g)"
      using b1(2) assms by (simp add: wf_board_length)
    from complete_rows_bound [OF this b1(3)] a have k: "?k \<le> 4" by auto
    have wf1: "wf_board (board ?g1)" using b1(2) by simp
    have scan: "clearScan (BoardHeight - 1) (board ?g1) 0 =
        Some (Inr (replicate ?k zeroRow @ filter (\<lambda>r. \<not> isComplete r) b1, ?k))"
      using clearScan_board [OF b1(2)] by simp
    have "\<exists>g2. clearLines ?g1 = Some (Inr g2)"
      using k by (simp add: clearLines_wf [OF wf1] Let_def)
    with b1(1) scan k show "\<exists>g1 b' k g2. lockPiece g = Inr g1 \<and>
               clearScan (BoardHeight - 1) (board g1) 0 = Some (Inr (b', k)) \<and> k \<le> 4 \<and>
               idx scoreTable (int k) = Inr (scoreTable ! k) \<and>
               clearLines g1 = Some (Inr g2)"
      by (auto simp: idx_scoreTable)
  qed
qed

lemma lock_tetrisReady:
  "lockPiece tetrisReady =
     Inr (tetrisReady\<lparr>board := replicate 16 [0, 0, 0, 0, 0, 0, 0, 0, 0, 0] @
            replicate 4 [1, 1, 1, 1, 1, 1, 1, 1, 1, 1]\<rparr>)"
  by (simp add: lockPiece_def tetrisReady_def gridSet_def BoardHeight_def BoardWidth_def
      eval_nat_numeral)

lemma clear_tetrisReady:
  "clearLines (tetrisReady\<lparr>board := replicate 16 [0, 0, 0, 0, 0, 0, 0, 0, 0, 0] @
            replicate 4 [1, 1, 1, 1, 1, 1, 1, 1, 1, 1]\<rparr>) =
   Some (Inr (tetrisReady\<lparr>board := replicate 20 [0, 0, 0, 0, 0, 0, 0, 0, 0, 0],
                 lines := 4, score := 800, level := 1\<rparr>))"
proof -
  let ?g = "tetrisReady\<lparr>board := replicate 16 [0, 0, 0, 0, 0, 0, 0, 0, 0, 0] @
            replicate 4 [1, 1, 1, 1, 1, 1, 1, 1, 1, 1]\<rparr>"
  have wf: "wf_board (board ?g)"
    by (simp add: wf_board_def BoardHeight_def BoardWidth_def)
  show ?thesis
    unfolding clearLines_wf [OF wf]
    by (simp add: isComplete_row Let_def scoreTable_def tetrisReady_def zeroRow_def
        BoardWidth_def signed_divide_int_def eval_nat_numeral wrapInt_def)
qed

theorem scoreTable_index_in_bounds_witness:
  "wf_board (board tetrisReady) \<and> length (currShape tetrisReady) \<le> 4 \<and>
   filter isComplete (board tetrisReady) = [] \<and>
   (\<exists>g1 b' k g2. lockPiece tetrisReady = Inr g1 \<and>
      clearScan (BoardHeight - 1) (board g1) 0 = Some (Inr (b', k)) \<and> k \<le> 4 \<and>
      idx scoreTable (int k) = Inr (scoreTable ! k) \<and> clearLines g1 = Some (Inr g2)) \<and>
   lockPiece tetrisReady =
     Inr (tetrisReady\<lparr>board := replicate 16 [0, 0, 0, 0, 0, 0, 0, 0, 0, 0] @
            replicate 4 [1, 1, 1, 1, 1, 1, 1, 1, 1, 1]\<rparr>) \<and>
   clearLines (tetrisReady\<lparr>board := replicate 16 [0, 0, 0, 0, 0, 0, 0, 0, 0, 0] @
            replicate 4 [1, 1, 1, 1, 1, 1, 1, 1, 1, 1]\<rparr>) =
     Some (Inr (tetrisReady\<lparr>board := replicate 20 [0, 0, 0, 0, 0, 0, 0, 0, 0, 0],
                   lines := 4, score := 800, level := 1\<rparr>)) \<and>
   wf_board (board fiveRowsFull) \<and> clearLines fiveRowsFull = Some (Inl IndexOutOfRange)"
proof -
  have wf: "wf_board (board tetrisReady)"
    by (simp add: tetrisReady_def wf_board_def BoardHeight_def BoardWidth_def)
  have a: "length (currShape tetrisReady) \<le> 4 \<and> (\<forall>r \<in> set (board tetrisReady). \<not> isComplete r)"
    by (simp add: tetrisReady_def isComplete_row)
  have wf5: "wf_board (board fiveRowsFull)"
    by (simp add: fiveRowsFull_def wf_board_def BoardHeight_def BoardWidth_def)
  have "4 < length (filter isComplete (board fiveRowsFull))"
    by (simp add: fiveRowsFull_def isComplete_row)
  with scoreTable_index_in_bounds [OF wf5] have "clearLines fiveRowsFull = Some (Inl IndexOutOfRange)"
    by blast
  moreover have "filter isComplete (board tetrisReady) = []"
    using a by (simp add: filter_empty_conv)
  ultimately show ?thesis
    using scoreTable_index_in_bounds [OF wf] wf a wf5 lock_tetrisReady clear_tetrisReady
    by blast
qed

subsection \<open>getGhostPosition and the fall of a piece\<close>

lemma not_collidesAt_inColumns: "\<not> collidesAt b s px py \<Longrightarrow> inColumns s px"
  unfolding collidesAt_def inColumns_def by (meson not_le)

lemma ghostCell_wf:
  assumes "wf_board b" "0 \<le> bx" "bx < BoardWidth"
  shows "ghostCell b bx by = Inr (BoardHeight \<le> by \<or> (0 \<le> by \<and> b ! nat by ! nat bx \<noteq> 0))"
  using assms by (auto simp: ghostCell_def wf_board_gridGet)

lemma ghostRow_wf:
  assumes "wf_board b"
    and "\<forall>x < length cells. cells ! x = 1 \<longrightarrow> 0 \<le> px + int (x0 + x) \<and> px + int (x0 + x) < BoardWidth"
  shows "ghostRow b px gy y x0 cells =
     Inr (\<not> (\<exists>x < length cells. cells ! x = 1 \<and>
        (BoardHeight \<le> gy + int y + 1 \<or>
         (0 \<le> gy + int y + 1 \<and> b ! nat (gy + int y + 1) ! nat (px + int (x0 + x)) \<noteq> 0))))"
  using assms(2)
proof (induction cells arbitrary: x0)
  case Nil
  show ?case by simp
next
  case (Cons c cs)
  have tl: "\<forall>x < length cs. cs ! x = 1 \<longrightarrow>
      0 \<le> px + int (Suc x0 + x) \<and> px + int (Suc x0 + x) < BoardWidth"
  proof (intro allI impI)
    fix x assume "x < length cs" "cs ! x = 1"
    with Cons.prems [rule_format, of "Suc x"] show
      "0 \<le> px + int (Suc x0 + x) \<and> px + int (Suc x0 + x) < BoardWidth" by simp
  qed
  show ?case
  proof (cases "c = 1")
    case True
    with Cons.prems [rule_format, of 0] have "0 \<le> px + int x0" "px + int x0 < BoardWidth"
      by simp_all
    from ghostCell_wf [OF assms(1) this] True show ?thesis
      by (auto simp add: Cons.IH [OF tl] Ex_less_Suc2 simp del: of_nat_add)
  next
    case False
    then show ?thesis
      by (auto simp add: Cons.IH [OF tl] Ex_less_Suc2 simp del: of_nat_add)
  qed
qed

lemma ghostRows_wf:
  assumes "wf_board b"
    and "\<forall>y < length rows. \<forall>x < length (rows ! y). rows ! y ! x = 1 \<longrightarrow>
           0 \<le> px + int x \<and> px + int x < BoardWidth"
  shows "ghostRows b px gy y0 rows =
     Inr (\<not> (\<exists>y < length rows. \<exists>x < length (rows ! y). rows ! y ! x = 1 \<and>
        (BoardHeight \<le> gy + int (y0 + y) + 1 \<or>
         (0 \<le> gy + int (y0 + y) + 1 \<and>
          b ! nat (gy + int (y0 + y) + 1) ! nat (px + int x) \<noteq> 0))))"
  using assms(2)
proof (induction rows arbitrary: y0)
  case Nil
  show ?case by simp
next
  case (Cons r rs)
  have hd: "\<forall>x < length r. r ! x = 1 \<longrightarrow> 0 \<le> px + int (0 + x) \<and> px + int (0 + x) < BoardWidth"
    using Cons.prems [rule_format, of 0] by simp
  have tl: "\<forall>y < length rs. \<forall>x < length (rs ! y). rs ! y ! x = 1 \<longrightarrow>
           0 \<le> px + int x \<and> px + int x < BoardWidth"
  proof (intro allI impI)
    fix y x assume "y < length rs" "x < length (rs ! y)" "rs ! y ! x = 1"
    with Cons.prems [rule_format, of "Suc y" x] show "0 \<le> px + int x \<and> px + int x < BoardWidth"
      by simp
  qed
  show ?case
    by (auto simp add: Cons.IH [OF tl] ghostRow_wf [OF assms(1) hd] Ex_less_Suc2
        simp del: of_nat_add)
qed

lemma ghostRows_collidesAt:
  assumes "wf_board b" "inColumns s px"
  shows "ghostRows b px gy 0 s = Inr (\<not> collidesAt b s px (gy + 1))"
proof -
  have "(\<exists>y < length s. \<exists>x < length (s ! y). s ! y ! x = 1 \<and>
        (BoardHeight \<le> gy + int (0 + y) + 1 \<or>
         (0 \<le> gy + int (0 + y) + 1 \<and>
          b ! nat (gy + int (0 + y) + 1) ! nat (px + int x) \<noteq> 0))) =
      collidesAt b s px (gy + 1)"
    unfolding collidesAt_def
  proof (intro ex_cong1 conj_cong refl)
    fix y x assume "y < length s" "x < length (s ! y)" "s ! y ! x = 1"
    with assms(2) have "0 \<le> px + int x" "px + int x < BoardWidth"
      by (auto simp: inColumns_def)
    then show "(BoardHeight \<le> gy + int (0 + y) + 1 \<or>
         (0 \<le> gy + int (0 + y) + 1 \<and>
          b ! nat (gy + int (0 + y) + 1) ! nat (px + int x) \<noteq> 0)) =
       (px + int x < 0 \<or> BoardWidth \<le> px + int x \<or> BoardHeight \<le> gy + 1 + int y \<or>
         (0 \<le> gy + 1 + int y \<and> b ! nat (gy + 1 + int y) ! nat (px + int x) \<noteq> 0))"
      by (simp add: add.commute add.left_commute)
  qed
  moreover have "\<forall>y < length s. \<forall>x < length (s ! y). s ! y ! x = 1 \<longrightarrow>
           0 \<le> px + int x \<and> px + int x < BoardWidth"
    using assms(2) by (simp add: inColumns_def)
  ultimately show ?thesis
    using ghostRows_wf [OF assms(1), of s px gy 0] by simp
qed

lemma move_down_wf:
  assumes "wf_board (board g)"
  shows "move 0 1 g =
     Inr (if collidesAt (board g) (currShape g) (pieceX g) (pieceY g + 1) then (False, g)
          else (True, g\<lparr>pieceY := pieceY g + 1\<rparr>))"
proof -
  have wf: "wf_board (board (g\<lparr>pieceX := pieceX g + 0, pieceY := pieceY g + 1\<rparr>))"
    using assms by simp
  show ?thesis
    unfolding move_def Let_def collides_collidesAt [OF wf] by simp
qed

lemma hardDrop_landed:
  assumes "move 0 1 g = Inr (False, g)"
  shows "hardDrop g = landPiece g"
  by (subst hardDrop.simps)
     (auto simp: drop_piece_def landPiece_def assms bindE_def split: sum.splits option.splits)

lemma hardDrop_moved:
  assumes "move 0 1 g = Inr (True, g')"
  shows "hardDrop g = hardDrop g'"
  by (subst hardDrop.simps) (simp add: drop_piece_def assms)

lemma collidesAt_below:
  assumes "\<exists>row \<in> set s. 1 \<in> set row" "BoardHeight \<le> py"
  shows "collidesAt b s px py"
proof -
  from assms(1) obtain y x where "y < length s" "x < length (s ! y)" "s ! y ! x = 1"
    by (auto simp: in_set_conv_nth)
  moreover have "BoardHeight \<le> py + int y" using assms(2) by simp
  ultimately show ?thesis unfolding collidesAt_def by blast
qed

lemma fall:
  assumes "wf_board (board g)" and "\<exists>row \<in> set (currShape g). 1 \<in> set row"
    and "\<not> collidesAt (board g) (currShape g) (pieceX g) y"
  shows "\<exists>fy \<ge> y. ghostLoop g y = Some (Inr (pieceX g, fy)) \<and>
     moveUntilBlocked (g\<lparr>pieceY := y\<rparr>) = Some (Inr (g\<lparr>pieceY := fy\<rparr>)) \<and>
     hardDrop (g\<lparr>pieceY := y\<rparr>) = landPiece (g\<lparr>pieceY := fy\<rparr>) \<and>
     \<not> collidesAt (board g) (currShape g) (pieceX g) fy \<and>
     collidesAt (board g) (currShape g) (pieceX g) (fy + 1)"
  using assms(3)
proof (induction "nat (BoardHeight - y)" arbitrary: y rule: less_induct)
  case less
  let ?b = "board g" and ?s = "currShape g" and ?px = "pieceX g"
  have top: "y < BoardHeight"
    using collidesAt_below [OF assms(2), of y ?b ?px] less.prems by force
  have cols: "inColumns ?s ?px" by (rule not_collidesAt_inColumns [OF less.prems])
  have rows: "ghostRows ?b ?px y 0 ?s = Inr (\<not> collidesAt ?b ?s ?px (y + 1))"
    by (rule ghostRows_collidesAt [OF assms(1) cols])
  have mv: "move 0 1 (g\<lparr>pieceY := y\<rparr>) =
      Inr (if collidesAt ?b ?s ?px (y + 1) then (False, g\<lparr>pieceY := y\<rparr>)
           else (True, g\<lparr>pieceY := y + 1\<rparr>))"
    using move_down_wf [of "g\<lparr>pieceY := y\<rparr>"] assms(1) by simp
  show ?case
  proof (cases "collidesAt ?b ?s ?px (y + 1)")
    case True
    have "ghostLoop g y = Some (Inr (?px, y))"
      by (subst ghostLoop.simps) (simp add: rows True)
    moreover have "moveUntilBlocked (g\<lparr>pieceY := y\<rparr>) = Some (Inr (g\<lparr>pieceY := y\<rparr>))"
      by (subst moveUntilBlocked.simps) (simp add: mv True)
    moreover have "hardDrop (g\<lparr>pieceY := y\<rparr>) = landPiece (g\<lparr>pieceY := y\<rparr>)"
      by (rule hardDrop_landed) (simp add: mv True)
    ultimately show ?thesis using True less.prems by blast
  next
    case False
    have "nat (BoardHeight - (y + 1)) < nat (BoardHeight - y)" using top by simp
    from less.hyps [OF this False] obtain fy where fy: "y + 1 \<le> fy"
      "ghostLoop g (y + 1) = Some (Inr (?px, fy))"
      "moveUntilBlocked (g\<lparr>pieceY := y + 1\<rparr>) = Some (Inr (g\<lparr>pieceY := fy\<rparr>))"
      "hardDrop (g\<lparr>pieceY := y + 1\<rparr>) = landPiece (g\<lparr>pieceY := fy\<rparr>)"
      "\<not> collidesAt ?b ?s ?px fy" "collidesAt ?b ?s ?px (fy + 1)"
      by blast
    have "ghostLoop g y = Some (Inr (?px, fy))"
      by (subst ghostLoop.simps) (simp add: rows False fy(2))
    moreover have "moveUntilBlocked (g\<lparr>pieceY := y\<rparr>) = Some (Inr (g\<lparr>pieceY := fy\<rparr>))"
      by (subst moveUntilBlocked.simps) (simp add: mv False fy(3))
    moreover have "hardDrop (g\<lparr>pieceY := y\<rparr>) = hardDrop (g\<lparr>pieceY := y + 1\<rparr>)"
      by (rule hardDrop_moved) (simp add: mv False)
    ultimately show ?thesis using fy by (intro exI [of _ fy]) simp
  qed
qed

lemma ghostLoop_returns_shape:
  assumes "ghostLoop g y = Some r"
  shows "currShape g \<noteq> []"
proof (rule ghostLoop.raw_induct [where P = "\<lambda>g y r. currShape g \<noteq> []", OF _ assms])
  fix loop :: "game \<Rightarrow> int \<Rightarrow> (error + int \<times> int) option" and g' ghostY r'
  assume IH: "\<And>g y r. loop g y = Some r \<Longrightarrow> currShape g \<noteq> []"
  assume body: "(case ghostRows (board g') (pieceX g') ghostY 0 (currShape g') of
      Inl e \<Rightarrow> Some (Inl e)
    | Inr canMove \<Rightarrow>
        if \<not> canMove then Some (Inr (pieceX g', ghostY)) else loop g' (ghostY + 1)) = Some r'"
  show "currShape g' \<noteq> []"
  proof
    assume e: "currShape g' = []"
    have "loop g' (ghostY + 1) = Some r'" using body by (simp add: e)
    then have "currShape g' \<noteq> []" by (rule IH)
    with e show False by contradiction
  qed
qed

lemma getGhostPosition_without_piece: "getGhostPosition (NewGame r) = None"
proof (cases "getGhostPosition (NewGame r)")
  case None
  then show ?thesis .
next
  case (Some res)
  then have "currShape (NewGame r) \<noteq> []"
    unfolding getGhostPosition_def by (rule ghostLoop_returns_shape)
  then show ?thesis by (simp add: NewGame_def)
qed

text \<open>
  Claim C4 (ghost accuracy). Take a state with a board of the engine's dimensions and a
  current piece (a shape with at least one filled cell) that does not collide where it is.
  Then \<open>getGhostPosition\<close> returns, with the unchanged \<open>pieceX\<close> and a row \<open>y\<close>;
  \<open>Move(0, 1)\<close> repeated until it returns false ends in the state with \<open>pieceY = y\<close> and
  nothing else changed; and \<open>Drop()\<close> repeated until it returns false locks the piece at
  exactly that position: it ends as \<open>lockPiece\<close>, \<open>clearLines\<close>, \<open>spawnPiece\<close> applied to
  the state with \<open>pieceY = y\<close>. The piece is free at row \<open>y\<close> and blocked one row below.
  All three loops are proved to return. (Without a piece, as in the state \<open>NewGame\<close> builds
  before the first spawn, none of them does: lemma \<open>getGhostPosition_without_piece\<close>.)
\<close>

theorem ghost_accuracy:
  assumes "wf_board (board g)" and "collides g = Inr False"
    and "\<exists>row \<in> set (currShape g). 1 \<in> set row"
  shows "\<exists>y \<ge> pieceY g.
     getGhostPosition g = Some (Inr (pieceX g, y)) \<and>
     moveUntilBlocked g = Some (Inr (g\<lparr>pieceY := y\<rparr>)) \<and>
     hardDrop g = landPiece (g\<lparr>pieceY := y\<rparr>) \<and>
     collides (g\<lparr>pieceY := y\<rparr>) = Inr False \<and>
     collides (g\<lparr>pieceY := y + 1\<rparr>) = Inr True"
proof -
  from assms(1,2) have "\<not> collidesAt (board g) (currShape g) (pieceX g) (pieceY g)"
    by (simp add: collides_collidesAt)
  from fall [OF assms(1,3) this] obtain fy where fy: "pieceY g \<le> fy"
      "ghostLoop g (pieceY g) = Some (Inr (pieceX g, fy))"
      "moveUntilBlocked (g\<lparr>pieceY := pieceY g\<rparr>) = Some (Inr (g\<lparr>pieceY := fy\<rparr>))"
      "hardDrop (g\<lparr>pieceY := pieceY g\<rparr>) = landPiece (g\<lparr>pieceY := fy\<rparr>)"
      "\<not> collidesAt (board g) (currShape g) (pieceX g) fy"
      "collidesAt (board g) (currShape g) (pieceX g) (fy + 1)"
    by blast
  have wf: "wf_board (board (g\<lparr>pieceY := v\<rparr>))" for v using assms(1) by simp
  have "collides (g\<lparr>pieceY := fy\<rparr>) = Inr False" "collides (g\<lparr>pieceY := fy + 1\<rparr>) = Inr True"
    using fy(5,6) by (simp_all add: collides_collidesAt [OF wf])
  with fy(1-4) show ?thesis
    by (intro exI [of _ fy]) (simp add: getGhostPosition_def)
qed

theorem ghost_accuracy_witness:
  "wf_board (board freshT) \<and> collides freshT = Inr False \<and>
   getGhostPosition freshT = Some (Inr (4, 18)) \<and>
   moveUntilBlocked freshT = Some (Inr (freshT\<lparr>pieceY := 18\<rparr>)) \<and>
   hardDrop freshT = landPiece (freshT\<lparr>pieceY := 18\<rparr>)"
proof -
  have wf: "wf_board (board (freshT\<lparr>pieceY := v\<rparr>))" for v
    by (simp add: freshT_def wf_zeroBoard)
  have wf0: "wf_board (board freshT)" by (simp add: freshT_def wf_zeroBoard)
  have c: "collides (freshT\<lparr>pieceY := v\<rparr>) = Inr (19 \<le> v)" for v
    unfolding collides_collidesAt [OF wf]
    by (auto simp: freshT_def collidesAt_zeroBoard Ex_less_Suc BoardWidth_def BoardHeight_def)
  have c0: "collides freshT = Inr False"
    using c [of 0] by (simp add: freshT_def)
  have cells: "\<exists>row \<in> set (currShape freshT). 1 \<in> set row"
    by (simp add: freshT_def)
  from ghost_accuracy [OF wf0 c0 cells] obtain y where y:
    "getGhostPosition freshT = Some (Inr (pieceX freshT, y))"
    "moveUntilBlocked freshT = Some (Inr (freshT\<lparr>pieceY := y\<rparr>))"
    "hardDrop freshT = landPiece (freshT\<lparr>pieceY := y\<rparr>)"
    "collides (freshT\<lparr>pieceY := y\<rparr>) = Inr False"
    "collides (freshT\<lparr>pieceY := y + 1\<rparr>) = Inr True"
    by blast
  from y(4,5) have "y = 18" by (simp add: c)
  moreover have "pieceX freshT = 4" by (simp add: freshT_def)
  ultimately show ?thesis using y(1-3) wf0 c0 by simp
qed

subsection \<open>Invariants of the reachable states\<close>

lemma pieceOK_Shapes:
  assumes "s \<in> set Shapes"
  shows "pieceOK s"
  using assms by (auto simp: Shapes_def pieceOK_def)

lemma idx_in_set: "idx xs i = Inr x \<Longrightarrow> x \<in> set xs"
  by (auto simp: idx_def split: if_splits)

lemma spawnPiece_result:
  assumes "spawnPiece g = Inr g'"
  shows "board g' = board g \<and> currShape g' \<in> set Shapes"
  using assms
  by (auto simp: spawnPiece_def bindE_def Let_def split: sum.splits prod.splits if_splits
      dest: idx_in_set)

lemma inv_spawnPiece: "inv g \<Longrightarrow> spawnPiece g = Inr g' \<Longrightarrow> inv g'"
  using spawnPiece_result [of g g'] pieceOK_Shapes by (auto simp: inv_def)

lemma move_result:
  assumes "move dx dy g = Inr (moved, g')"
  shows "board g' = board g \<and> currShape g' = currShape g"
  using assms by (auto simp: move_def bindE_def Let_def split: sum.splits if_splits)

lemma inv_move: "inv g \<Longrightarrow> move dx dy g = Inr (moved, g') \<Longrightarrow> inv g'"
  using move_result [of dx dy g moved g'] by (auto simp: inv_def)

lemma pieceOK_rot90:
  assumes "pieceOK s"
  shows "pieceOK (rot90 s)"
proof -
  from assms have rect: "\<forall>row \<in> set s. length row = length (s ! 0)"
    and some: "\<exists>row \<in> set s. 1 \<in> set row"
    unfolding pieceOK_def by blast+
  from some obtain row where row: "row \<in> set s" "1 \<in> set row" by blast
  from row(1) obtain y where y: "y < length s" "s ! y = row"
    unfolding in_set_conv_nth by blast
  from row(2) obtain x where xr: "x < length row" "row ! x = 1"
    unfolding in_set_conv_nth by blast
  from rect row(1) have "length row = length (s ! 0)" by blast
  with xr(1) have x: "x < length (s ! 0)" by simp
  have d: "dims (rot90 s) (length (s ! 0)) (length s)" by (rule dims_rot90)
  then have l: "length (rot90 s) = length (s ! 0)" by (simp add: dims_def)
  with x have ne: "rot90 s \<noteq> []" by auto
  have rl: "\<forall>r \<in> set (rot90 s). length r = length (rot90 s ! 0)"
  proof
    fix r assume "r \<in> set (rot90 s)"
    with d have "length r = length s" by (simp add: dims_def)
    moreover have "0 < length (s ! 0)" using x by arith
    then have "length (rot90 s ! 0) = length s" by (rule dims_nth [OF d])
    ultimately show "length r = length (rot90 s ! 0)" by simp
  qed
  let ?j = "length s - 1 - y"
  have j: "?j < length s" using y(1) by arith
  have jy: "length s - 1 - ?j = y" using y(1) by arith
  have cell: "rot90 s ! x ! ?j = 1"
    unfolding rot90_nth [OF x j] jy y(2) by (rule xr(2))
  have mem: "rot90 s ! x \<in> set (rot90 s)"
    using x l by (intro nth_mem) simp
  have "?j < length (rot90 s ! x)"
    using dims_nth [OF d x] j by simp
  then have "rot90 s ! x ! ?j \<in> set (rot90 s ! x)" by (rule nth_mem)
  with cell have "1 \<in> set (rot90 s ! x)" by simp
  with mem have "\<exists>r \<in> set (rot90 s). 1 \<in> set r" by blast
  with ne rl show ?thesis unfolding pieceOK_def by blast
qed

lemma inv_rotate_piece:
  assumes "inv g" "rotate_piece g = Inr g'"
  shows "inv g'"
proof (cases "currShape g = []")
  case True
  with assms(2) show ?thesis by (simp add: rotate_piece_def idx_def)
next
  case False
  with assms(1) have ok: "pieceOK (currShape g)" and wf: "wf_board (board g)"
    unfolding inv_def by blast+
  from ok have rect: "\<forall>row \<in> set (currShape g). length row = length (currShape g ! 0)"
    unfolding pieceOK_def by blast
  let ?g' = "g\<lparr>currShape := rot90 (currShape g)\<rparr>"
  have i': "inv ?g'" using wf pieceOK_rot90 [OF ok] by (simp add: inv_def)
  show ?thesis
  proof (cases "collides ?g'")
    case (Inl e)
    with assms(2) show ?thesis by (simp add: rotate_piece_rot90 [OF False rect])
  next
    case (Inr hit)
    with assms(2) have "g' = (if hit then g else ?g')"
      by (simp add: rotate_piece_rot90 [OF False rect])
    with assms(1) i' show ?thesis by (cases hit) simp_all
  qed
qed

lemma lockPiece_result:
  assumes "wf_board (board g)" "lockPiece g = Inr g'"
  shows "wf_board (board g') \<and> currShape g' = currShape g"
proof -
  from lockPiece_wf [OF assms(1)] obtain b' where
    "lockPiece g = Inr (g\<lparr>board := b'\<rparr>)" "wf_board b'" by blast
  with assms(2) show ?thesis by auto
qed

lemma wf_board_cleared:
  assumes "wf_board b"
  shows "wf_board (replicate (length (filter isComplete b)) zeroRow @
                   filter (\<lambda>r. \<not> isComplete r) b)"
  unfolding wf_board_def
proof
  have "length (filter isComplete b) + length (filter (\<lambda>r. \<not> isComplete r) b) = length b"
    by (rule sum_length_filter_compl)
  with assms show "int (length (replicate (length (filter isComplete b)) zeroRow @
                   filter (\<lambda>r. \<not> isComplete r) b)) = BoardHeight"
    by (simp add: wf_board_def)
  show "\<forall>r \<in> set (replicate (length (filter isComplete b)) zeroRow @
                   filter (\<lambda>r. \<not> isComplete r) b). int (length r) = BoardWidth"
  proof
    fix r assume "r \<in> set (replicate (length (filter isComplete b)) zeroRow @
                   filter (\<lambda>r. \<not> isComplete r) b)"
    then have "r = zeroRow \<or> r \<in> set b" by auto
    with assms show "int (length r) = BoardWidth"
      by (auto simp: wf_board_def zeroRow_def BoardWidth_def)
  qed
qed

lemma clearLines_result:
  assumes "wf_board (board g)" "clearLines g = Some (Inr g')"
  shows "wf_board (board g') \<and> currShape g' = currShape g"
proof (cases "length (filter isComplete (board g)) = 0")
  case True
  with assms show ?thesis by (simp add: clearLines_wf [OF assms(1)])
next
  case False
  show ?thesis
  proof (cases "length (filter isComplete (board g)) \<le> 4")
    case True
    with False assms(2) wf_board_cleared [OF assms(1)] show ?thesis
      by (auto simp: clearLines_wf [OF assms(1)] Let_def)
  next
    case le: False
    with False assms(2) show ?thesis
      by (simp add: clearLines_wf [OF assms(1)] Let_def)
  qed
qed

lemma inv_drop_piece:
  assumes "inv g" "drop_piece g = Some (Inr (moved, g'))"
  shows "inv g'"
proof (cases "move 0 1 g")
  case (Inl e)
  with assms(2) show ?thesis by (simp add: drop_piece_def)
next
  case (Inr r)
  obtain ok g1 where r: "r = (ok, g1)" by (cases r)
  with Inr assms(1) have i1: "inv g1" using inv_move by blast
  show ?thesis
  proof (cases ok)
    case True
    with assms(2) Inr r i1 show ?thesis by (simp add: drop_piece_def)
  next
    case False
    from i1 have wf1: "wf_board (board g1)" by (simp add: inv_def)
    from assms(2) Inr r False have d: "(case lockPiece g1 of
               Inl e \<Rightarrow> Some (Inl e)
             | Inr g2 \<Rightarrow>
                 (case clearLines g2 of
                    None \<Rightarrow> None
                  | Some (Inl e) \<Rightarrow> Some (Inl e)
                  | Some (Inr g3) \<Rightarrow> Some (bindE (spawnPiece g3) (\<lambda>g4. Inr (False, g4))))) =
          Some (Inr (moved, g'))"
      by (simp add: drop_piece_def)
    then obtain g2 where l: "lockPiece g1 = Inr g2" by (cases "lockPiece g1") simp_all
    from lockPiece_result [OF wf1 l] have wf2: "wf_board (board g2)" by simp
    from d l obtain res where c: "clearLines g2 = Some res" by (cases "clearLines g2") simp_all
    with d l obtain g3 where c3: "clearLines g2 = Some (Inr g3)" by (cases res) simp_all
    from clearLines_result [OF wf2 c3] have wf3: "wf_board (board g3)" by simp
    from d l c3 obtain g4 where s: "spawnPiece g3 = Inr g4" "g' = g4"
      by (cases "spawnPiece g3") simp_all
    from spawnPiece_result [OF s(1)] wf3 s(2) pieceOK_Shapes show ?thesis
      by (simp add: inv_def)
  qed
qed

lemma inv_reset:
  assumes "inv g" "reset g = Inr g'"
  shows "inv g'"
proof -
  from assms(1) have "wf_board (board g)" by (simp add: inv_def)
  from reset_wf [OF this] assms(2) have b: "board g' = zeroBoard"
    and s: "currShape g' = Shapes ! (shd (rng g) mod 7)"
    by (auto simp: spawned_def)
  have "Shapes ! (shd (rng g) mod 7) \<in> set Shapes"
    by (rule nth_mem) (simp add: length_Shapes)
  with b s wf_zeroBoard pieceOK_Shapes show ?thesis by (simp add: inv_def)
qed

lemma reachable_inv: "reachable g \<Longrightarrow> inv g"
proof (induction rule: reachable.induct)
  case (new r)
  have "currShape (NewGame r) = []" by (simp add: NewGame_def)
  with wf_board_NewGame show ?case by (simp add: inv_def)
next
  case (spawn g g')
  then show ?case using inv_spawnPiece by blast
next
  case (shift g dx dy moved g')
  then show ?case using inv_move by blast
next
  case (turn g g')
  then show ?case using inv_rotate_piece by blast
next
  case (down g moved g')
  then show ?case using inv_drop_piece by blast
next
  case (again g g')
  then show ?case using inv_reset by blast
next
  case (pause g)
  then show ?case by (simp add: inv_def)
qed

text \<open>In every state a run reaches after its first \<open>spawnPiece\<close>, the board has the
  engine's dimensions and the shape is a piece: the hypotheses of the theorems on
  \<open>rotate\<close> and \<open>getGhostPosition\<close> are invariants.\<close>

lemma reachable_piece:
  assumes "reachable g" "currShape g \<noteq> []"
  shows "wf_board (board g) \<and>
     (\<forall>row \<in> set (currShape g). length row = length (currShape g ! 0)) \<and>
     (\<exists>row \<in> set (currShape g). 1 \<in> set row)"
proof -
  from reachable_inv [OF assms(1)] assms(2) have "wf_board (board g)" "pieceOK (currShape g)"
    unfolding inv_def by blast+
  then show ?thesis unfolding pieceOK_def by blast
qed

section \<open>Properties of the Snake engine\<close>

subsection \<open>spawnFood and the grid\<close>

lemma gridGet_zeroBoard_s:
  assumes "0 \<le> y" "y < BoardHeight_s" "0 \<le> x" "x < BoardWidth_s"
  shows "gridGet zeroBoard_s y x = Inr 0"
  using assms by (simp add: gridGet_def zeroBoard_s_def)

lemma emptyInRow_zeroBoard_s:
  assumes "0 \<le> y" "y < BoardHeight_s" "\<forall>x \<in> set xs. 0 \<le> x \<and> x < BoardWidth_s"
  shows "emptyInRow zeroBoard_s y xs acc = Inr (acc @ map (\<lambda>x. (x, y)) xs)"
  using assms(3)
proof (induction xs arbitrary: acc)
  case Nil
  show ?case by simp
next
  case (Cons x xs)
  then show ?case by (simp add: gridGet_zeroBoard_s assms(1,2))
qed

lemma emptyInRows_zeroBoard_s:
  assumes "\<forall>y \<in> set ys. 0 \<le> y \<and> y < BoardHeight_s"
  shows "emptyInRows zeroBoard_s ys acc =
     Inr (acc @ concat (map (\<lambda>y. map (\<lambda>x. (x, y)) [0..BoardWidth_s - 1]) ys))"
  using assms
proof (induction ys arbitrary: acc)
  case Nil
  show ?case by simp
next
  case (Cons y ys)
  then show ?case by (simp add: emptyInRow_zeroBoard_s)
qed

lemma emptyPoints_zeroBoard_s:
  "emptyInRows zeroBoard_s [0..BoardHeight_s - 1] [] = Inr allCells_s"
  by (simp add: emptyInRows_zeroBoard_s allCells_s_def)

lemma set_allCells_s:
  "set allCells_s = {(x, y). 0 \<le> x \<and> x < BoardWidth_s \<and> 0 \<le> y \<and> y < BoardHeight_s}"
  by (auto simp: allCells_s_def)

lemma length_allCells_s: "length allCells_s = 300"
  by (simp add: allCells_s_def BoardWidth_s_def BoardHeight_s_def length_concat comp_def sum_list_triv)

lemma distinct_allCells_s: "distinct allCells_s"
  unfolding allCells_s_def
  by (rule distinct_concat) (auto simp: distinct_map inj_on_def BoardWidth_s_def)

lemma allCells_s_150: "allCells_s ! 150 = (10, 7)"
  by (simp add: allCells_s_def BoardWidth_s_def BoardHeight_s_def upto_rec1)

lemma allCells_s_nonempty: "allCells_s \<noteq> []"
  using length_allCells_s by auto

lemma spawnFood_zeroBoard_s:
  assumes "board_s g = zeroBoard_s"
  shows "spawnFood g =
     Inr (g\<lparr>food := allCells_s ! (shd (rng_s g) mod length allCells_s), rng_s := stl (rng_s g)\<rparr>)"
  by (simp add: spawnFood_def assms emptyPoints_zeroBoard_s allCells_s_nonempty Intn_def)

lemma zero_zeroBoard_s: "map (map (\<lambda>_. 0)) zeroBoard_s = zeroBoard_s"
  by (simp add: zeroBoard_s_def)

lemma spawnFood_board_s: "spawnFood g = Inr g' \<Longrightarrow> board_s g' = board_s g \<and> snake g' = snake g"
  by (auto simp: spawnFood_def bindE_def Intn_def split: sum.splits if_splits)

lemma in_board_initialSnake:
  "p \<in> set initialSnake \<Longrightarrow> 0 \<le> fst p \<and> fst p < BoardWidth_s \<and> 0 \<le> snd p \<and> snd p < BoardHeight_s"
  by (auto simp: initialSnake_def BoardWidth_s_def BoardHeight_s_def)

lemma inv_s_NewGame_s: "inv_s (NewGame_s r)"
  using in_board_initialSnake by (simp add: inv_s_def NewGame_s_def zeroBoard_s_def)

lemma inv_s_spawnFood: "inv_s g \<Longrightarrow> spawnFood g = Inr g' \<Longrightarrow> inv_s g'"
  by (simp add: inv_s_def spawnFood_board_s)

lemma inv_s_reset_s: "inv_s g \<Longrightarrow> reset_s g = Inr g' \<Longrightarrow> inv_s g'"
proof -
  assume inv: "inv_s g" and r: "reset_s g = Inr g'"
  have "inv_s (g\<lparr>board_s := map (map (\<lambda>_. 0)) (board_s g),
                  snake := initialSnake, direction := Up, nextDir := Up,
                  score_s := 0, length_s := 3, paused_s := False, gameOver_s := False\<rparr>)"
    using inv in_board_initialSnake by (simp add: inv_s_def zero_zeroBoard_s)
  from this r show "inv_s g'" unfolding reset_s_def by (rule inv_s_spawnFood)
qed

lemma inv_s_subset:
  "inv_s g \<Longrightarrow> board_s g' = board_s g \<Longrightarrow> set (snake g') \<subseteq> set (snake g) \<Longrightarrow> inv_s g'"
  by (auto simp: inv_s_def subset_iff)

lemma inv_s_move_s:
  assumes "inv_s g" "move_s g = Inr (moved, g')"
  shows "inv_s g'"
proof -
  obtain hx hy where hd: "idx (snake g) 0 = Inr (hx, hy)"
    using assms(2) by (cases "idx (snake g) 0") (auto simp: move_s_def)
  define head where "head = (case nextDir g of Up \<Rightarrow> (hx, hy - 1) | Down \<Rightarrow> (hx, hy + 1)
      | Left \<Rightarrow> (hx - 1, hy) | Right \<Rightarrow> (hx + 1, hy))"
  show ?thesis
  proof (cases "collides_s (g\<lparr>direction := nextDir g\<rparr>) head")
    case True
    with assms hd show ?thesis by (auto simp: move_s_def head_def inv_s_def)
  next
    case False
    then have inb: "0 \<le> fst head \<and> fst head < BoardWidth_s \<and> 0 \<le> snd head \<and> snd head < BoardHeight_s"
      by (auto simp: collides_s_def split: if_splits)
    have grown: "inv_s (g\<lparr>direction := nextDir g, snake := head # snake g\<rparr>)"
      using assms(1) inb by (simp add: inv_s_def)
    show ?thesis
    proof (cases "head = food g")
      case True
      from assms(2) hd False True obtain g3 where
        "spawnFood (g\<lparr>direction := nextDir g, snake := head # snake g,
            score_s := wrapInt (score_s g + 10), length_s := wrapInt (length_s g + 1)\<rparr>) = Inr g3" "g' = g3"
        by (auto simp: move_s_def head_def [symmetric] bindE_def split: sum.splits)
      moreover have "inv_s (g\<lparr>direction := nextDir g, snake := head # snake g,
            score_s := wrapInt (score_s g + 10), length_s := wrapInt (length_s g + 1)\<rparr>)"
        using grown by (simp add: inv_s_def)
      ultimately show ?thesis using inv_s_spawnFood by blast
    next
      case nf: False
      from assms(2) hd False nf have
        "g' = g\<lparr>direction := nextDir g, snake := head # snake g\<rparr> \<or>
         g' = g\<lparr>direction := nextDir g, snake := take (length (snake g)) (head # snake g)\<rparr>"
        by (auto simp: move_s_def head_def [symmetric] Let_def split: if_splits)
      then have "board_s g' = board_s (g\<lparr>direction := nextDir g, snake := head # snake g\<rparr>) \<and>
          set (snake g') \<subseteq> set (snake (g\<lparr>direction := nextDir g, snake := head # snake g\<rparr>))"
        using set_take_subset [of "length (snake g)" "head # snake g"] by auto
      with grown show ?thesis using inv_s_subset by blast
    qed
  qed
qed

lemma Run_key_s_cases:
  assumes "Run_key_s ev g = Continue g'"
  shows "g' = g \<or> g' = g\<lparr>paused_s := \<not> paused_s g\<rparr> \<or> (\<exists>d. g' = g\<lparr>nextDir := d\<rparr>) \<or>
         reset_s g = Inr g'"
proof (cases "reset_s g")
  case (Inl e)
  with assms show ?thesis
    by (cases "Key ev") (auto simp: Run_key_s_def continue_def split: if_splits)
next
  case (Inr g2)
  with assms show ?thesis
    by (cases "Key ev") (auto simp: Run_key_s_def continue_def split: if_splits)
qed

lemma inv_s_Run_key_s:
  assumes "inv_s g" "Run_key_s ev g = Continue g'"
  shows "inv_s g'"
  using Run_key_s_cases [OF assms(2)] assms(1) inv_s_reset_s [of g g']
  by (auto simp: inv_s_def)

lemma reachable_s_inv_s: "reachable_s g \<Longrightarrow> inv_s g"
  by (induction rule: reachable_s.induct)
     (auto intro: inv_s_NewGame_s inv_s_spawnFood inv_s_move_s inv_s_reset_s inv_s_Run_key_s)

lemma zeroBoard_s_NewGame_s: "board_s (NewGame_s r) = zeroBoard_s"
  by (simp add: NewGame_s_def zeroBoard_s_def)

text \<open>
  Claim C1 (food placement). The claim asks that the food never lies on the snake. The
  engine filters the candidates of \<open>spawnFood\<close> by the grid, and the grid is never
  written, so the filter removes nothing: at the start of \<open>Run\<close> (\<open>NewGame\<close>, then
  \<open>spawnFood\<close>), a generator whose first draw gives 150 puts the food on the cell
  \<open>(10, 7)\<close>, which is the head of the snake.
\<close>

theorem food_spawned_on_snake_head:
  "spawnFood (NewGame_s (150 ## sconst 0)) = Inr foodOnHead \<and>
   food foodOnHead \<in> set (snake foodOnHead)"
proof -
  have "spawnFood (NewGame_s (150 ## sconst 0)) =
      Inr ((NewGame_s (150 ## sconst 0))\<lparr>food := allCells_s ! (150 mod 300), rng_s := sconst 0\<rparr>)"
    using spawnFood_zeroBoard_s [OF zeroBoard_s_NewGame_s, of "150 ## sconst 0"]
    by (simp add: length_allCells_s NewGame_s_def)
  then have "spawnFood (NewGame_s (150 ## sconst 0)) = Inr foodOnHead"
    by (simp add: allCells_s_150 foodOnHead_def)
  moreover have "food foodOnHead \<in> set (snake foodOnHead)"
    by (simp add: foodOnHead_def NewGame_s_def initialSnake_def BoardWidth_s_def BoardHeight_s_def)
  ultimately show ?thesis by simp
qed

text \<open>
  Claim C9 (the Snake grid stays zero). In every reachable state the grid is entirely zero,
  so the candidate list of \<open>spawnFood\<close> is the list of all
  \<open>BoardWidth * BoardHeight\<close> cells, each once; the food is the candidate at the index the
  generator returns, and every cell under the snake's body is chosen by some draw.
\<close>

theorem snake_board_never_written:
  assumes "reachable_s g"
  shows "board_s g = replicate (nat BoardHeight_s) (replicate (nat BoardWidth_s) 0) \<and>
         emptyInRows (board_s g) [0..BoardHeight_s - 1] [] = Inr allCells_s \<and>
         length allCells_s = nat (BoardWidth_s * BoardHeight_s) \<and>
         distinct allCells_s \<and>
         set allCells_s = {(x, y). 0 \<le> x \<and> x < BoardWidth_s \<and> 0 \<le> y \<and> y < BoardHeight_s} \<and>
         spawnFood g = Inr (g\<lparr>food := allCells_s ! (shd (rng_s g) mod length allCells_s),
                               rng_s := stl (rng_s g)\<rparr>) \<and>
         (\<forall>p \<in> set (snake g). \<exists>r. spawnFood (g\<lparr>rng_s := r\<rparr>) = Inr (g\<lparr>food := p, rng_s := stl r\<rparr>))"
proof -
  from assms have inv: "inv_s g" by (rule reachable_s_inv_s)
  then have zb: "board_s g = zeroBoard_s" by (simp add: inv_s_def)
  have onSnake: "\<exists>r. spawnFood (g\<lparr>rng_s := r\<rparr>) = Inr (g\<lparr>food := p, rng_s := stl r\<rparr>)"
    if "p \<in> set (snake g)" for p
  proof -
    from inv that have "p \<in> set allCells_s"
      unfolding set_allCells_s inv_s_def by (cases p) auto
    then obtain i where i: "i < length allCells_s" "allCells_s ! i = p"
      by (auto simp: in_set_conv_nth)
    have "spawnFood (g\<lparr>rng_s := sconst i\<rparr>) = Inr (g\<lparr>food := p, rng_s := stl (sconst i)\<rparr>)"
      using i zb by (simp add: spawnFood_zeroBoard_s)
    then show ?thesis ..
  qed
  show ?thesis
    using zb onSnake
    by (simp add: emptyPoints_zeroBoard_s spawnFood_zeroBoard_s set_allCells_s distinct_allCells_s
        length_allCells_s) (simp add: zeroBoard_s_def BoardWidth_s_def BoardHeight_s_def)
qed

theorem snake_board_never_written_witness:
  "reachable_s (NewGame_s (sconst 7)) \<and>
   board_s (NewGame_s (sconst 7)) = replicate 15 (replicate 20 0) \<and>
   spawnFood (NewGame_s (sconst 7)) = Inr ((NewGame_s (sconst 7))\<lparr>food := (7, 0)\<rparr>) \<and>
   (10, 8) \<in> set (snake (NewGame_s (sconst 7))) \<and>
   (\<exists>r. spawnFood ((NewGame_s (sconst 7))\<lparr>rng_s := r\<rparr>) =
      Inr ((NewGame_s (sconst 7))\<lparr>food := (10, 8), rng_s := stl r\<rparr>))"
proof -
  have r: "reachable_s (NewGame_s (sconst 7))" by (rule reachable_s.new)
  have c: "allCells_s ! 7 = (7, 0)"
    by (simp add: allCells_s_def BoardWidth_s_def BoardHeight_s_def upto_rec1)
  have n: "(10, 8) \<in> set (snake (NewGame_s (sconst 7)))"
    by (simp add: NewGame_s_def initialSnake_def BoardWidth_s_def BoardHeight_s_def)
  have "\<exists>r. spawnFood ((NewGame_s (sconst 7))\<lparr>rng_s := r\<rparr>) =
      Inr ((NewGame_s (sconst 7))\<lparr>food := (10, 8), rng_s := stl r\<rparr>)"
    using snake_board_never_written [OF r] n by blast
  with snake_board_never_written [OF r] r c n show ?thesis
    by (simp add: BoardWidth_s_def BoardHeight_s_def) (simp add: NewGame_s_def)
qed

subsection \<open>Direction requests\<close>







section \<open>Reset, for both engines\<close>

lemma zero_wf_board_s:
  assumes "wf_board_s b"
  shows "map (map (\<lambda>_. 0)) b = zeroBoard_s"
proof -
  have "map (map (\<lambda>_. 0)) b = map (\<lambda>r. replicate (nat BoardWidth_s) (0::int)) b"
    using assms by (intro map_cong refl) (auto simp: wf_board_s_def map_replicate_const)
  also have "\<dots> = replicate (length b) (replicate (nat BoardWidth_s) 0)"
    by (rule map_replicate_const)
  finally show ?thesis using assms by (simp add: zeroBoard_s_def wf_board_s_def BoardHeight_s_def)
qed

lemma reset_s_wf:
  assumes "wf_board_s (board_s h)"
  shows "reset_s h =
     Inr (h\<lparr>board_s := zeroBoard_s, snake := initialSnake, direction := Up, nextDir := Up,
            score_s := 0, length_s := 3, paused_s := False, gameOver_s := False,
            food := allCells_s ! (shd (rng_s h) mod length allCells_s), rng_s := stl (rng_s h)\<rparr>)"
  by (simp add: reset_s_def zero_wf_board_s [OF assms] spawnFood_zeroBoard_s)

lemma wf_zeroBoard_s: "wf_board_s zeroBoard_s"
  by (simp add: wf_board_s_def zeroBoard_s_def BoardHeight_s_def BoardWidth_s_def)

text \<open>
  Claim C8 (reset idempotence). The claim lists \<open>nextPiece\<close> and the piece position among
  the fields that two resets in a row agree on. In Tetris both depend on the random source:
  with the draws 0, 0, 1, 1 the first reset spawns the \<open>I\<close> piece at column 3 with
  \<open>nextPiece = 1\<close>, the second the \<open>O\<close> piece at column 4 with \<open>nextPiece = 2\<close>.
\<close>

theorem reset_twice_differs:
  "reset (NewGame (0 ## 0 ## 1 ## 1 ## sconst 0)) = Inr resetOnce \<and>
   reset resetOnce = Inr resetTwice \<and>
   nextPiece resetOnce = 1 \<and> nextPiece resetTwice = 2 \<and>
   pieceX resetOnce = 3 \<and> pieceX resetTwice = 4"
proof -
  have 1: "reset (NewGame (0 ## 0 ## 1 ## 1 ## sconst 0)) = Inr resetOnce"
    by (simp add: reset_wf wf_board_NewGame)
       (simp add: spawned_def resetOnce_def NewGame_def zeroBoard_def Shapes_def BoardWidth_def)
  have "wf_board (board resetOnce)" by (simp add: resetOnce_def wf_board_NewGame)
  then have 2: "reset resetOnce = Inr resetTwice"
    by (simp add: reset_wf)
       (simp add: spawned_def resetOnce_def resetTwice_def NewGame_def zeroBoard_def Shapes_def
          BoardWidth_def)
  from 1 2 show ?thesis by (simp add: resetOnce_def resetTwice_def)
qed

lemma reset_again:
  assumes "wf_board (board g)" "reset g = Inr g1"
  shows "\<exists>g2. reset g1 = Inr g2 \<and>
     g2 = g1\<lparr>currPiece := currPiece g2, currShape := currShape g2, pieceX := pieceX g2,
              nextPiece := nextPiece g2, rng := rng g2\<rparr>"
proof -
  from assms have f: "board g1 = zeroBoard" "score g1 = 0" "lines g1 = 0" "level g1 = 1"
    "\<not> paused g1" "\<not> gameOver g1" "pieceY g1 = 0"
    by (auto simp: reset_wf spawned_def)
  then have wf: "wf_board (board g1)" by (simp add: wf_zeroBoard)
  define g2 where "g2 = spawned (g1\<lparr>board := zeroBoard, score := 0, lines := 0, level := 1,
      nextPiece := 0, paused := False, gameOver := False\<rparr>)
      (shd (rng g1) mod 7) (shd (stl (rng g1)) mod 7) (stl (stl (rng g1)))"
  have "reset g1 = Inr g2" by (simp add: reset_wf [OF wf] g2_def)
  moreover have "g2 = g1\<lparr>currPiece := currPiece g2, currShape := currShape g2,
      pieceX := pieceX g2, nextPiece := nextPiece g2, rng := rng g2\<rparr>"
    using f by (intro game.equality) (simp_all add: g2_def spawned_def)
  ultimately show ?thesis by blast
qed

lemma reset_s_again:
  assumes "wf_board_s (board_s h)" "reset_s h = Inr h1"
  shows "\<exists>h2. reset_s h1 = Inr h2 \<and> h2 = h1\<lparr>food := food h2, rng_s := rng_s h2\<rparr>"
proof -
  from assms have f: "board_s h1 = zeroBoard_s" "snake h1 = initialSnake" "direction h1 = Up"
    "nextDir h1 = Up" "score_s h1 = 0" "length_s h1 = 3" "\<not> paused_s h1" "\<not> gameOver_s h1"
    by (auto simp: reset_s_wf)
  then have wf: "wf_board_s (board_s h1)" by (simp add: wf_zeroBoard_s)
  define h2 where "h2 = h1\<lparr>board_s := zeroBoard_s, snake := initialSnake, direction := Up,
      nextDir := Up, score_s := 0, length_s := 3, paused_s := False, gameOver_s := False,
      food := allCells_s ! (shd (rng_s h1) mod length allCells_s), rng_s := stl (rng_s h1)\<rparr>"
  have "reset_s h1 = Inr h2" by (simp add: reset_s_wf [OF wf] h2_def)
  moreover have "h2 = h1\<lparr>food := food h2, rng_s := rng_s h2\<rparr>"
    using f by (intro game_s.equality) (simp_all add: h2_def)
  ultimately show ?thesis by blast
qed

text \<open>
  Claim C8 as the code has it. On boards of the engines' dimensions, two resets in a row
  both succeed, and the second state equals the first in every field except, for Tetris,
  \<open>currPiece\<close>, \<open>currShape\<close>, \<open>pieceX\<close>, \<open>nextPiece\<close> and the generator, and for Snake,
  \<open>food\<close> and the generator.
\<close>

theorem reset_twice_agree:
  assumes "wf_board (board g)" and "wf_board_s (board_s h)"
  shows "(\<exists>g1 g2. reset g = Inr g1 \<and> reset g1 = Inr g2 \<and>
            g2 = g1\<lparr>currPiece := currPiece g2, currShape := currShape g2, pieceX := pieceX g2,
                     nextPiece := nextPiece g2, rng := rng g2\<rparr>) \<and>
         (\<exists>h1 h2. reset_s h = Inr h1 \<and> reset_s h1 = Inr h2 \<and>
            h2 = h1\<lparr>food := food h2, rng_s := rng_s h2\<rparr>)"
proof -
  obtain g1 where g1: "reset g = Inr g1" by (simp add: reset_wf [OF assms(1)])
  obtain h1 where h1: "reset_s h = Inr h1" by (simp add: reset_s_wf [OF assms(2)])
  from reset_again [OF assms(1) g1] reset_s_again [OF assms(2) h1] g1 h1
  show ?thesis by blast
qed

theorem reset_twice_agree_witness:
  "wf_board (board (NewGame (0 ## 0 ## 1 ## 1 ## sconst 0))) \<and>
   wf_board_s (board_s (NewGame_s (sconst 7))) \<and>
   (\<exists>g1 g2. reset (NewGame (0 ## 0 ## 1 ## 1 ## sconst 0)) = Inr g1 \<and> reset g1 = Inr g2 \<and>
      board g2 = board g1 \<and> score g2 = score g1 \<and> lines g2 = lines g1 \<and>
      level g2 = level g1 \<and> paused g2 = paused g1 \<and> gameOver g2 = gameOver g1 \<and>
      pieceY g2 = pieceY g1) \<and>
   (\<exists>h1 h2. reset_s (NewGame_s (sconst 7)) = Inr h1 \<and> reset_s h1 = Inr h2 \<and>
      snake h2 = snake h1 \<and> direction h2 = direction h1 \<and> nextDir h2 = nextDir h1 \<and>
      score_s h2 = score_s h1 \<and> length_s h2 = length_s h1)"
proof -
  have a: "wf_board (board (NewGame (0 ## 0 ## 1 ## 1 ## sconst 0)))"
    by (rule wf_board_NewGame)
  have b: "wf_board_s (board_s (NewGame_s (sconst 7)))"
    by (simp add: zeroBoard_s_NewGame_s wf_zeroBoard_s)
  from reset_twice_agree [OF a b] obtain g1 g2 h1 h2 where
    g: "reset (NewGame (0 ## 0 ## 1 ## 1 ## sconst 0)) = Inr g1" "reset g1 = Inr g2"
       "g2 = g1\<lparr>currPiece := currPiece g2, currShape := currShape g2, pieceX := pieceX g2,
             nextPiece := nextPiece g2, rng := rng g2\<rparr>" and
    h: "reset_s (NewGame_s (sconst 7)) = Inr h1" "reset_s h1 = Inr h2"
       "h2 = h1\<lparr>food := food h2, rng_s := rng_s h2\<rparr>"
    by blast
  have "board g2 = board g1 \<and> score g2 = score g1 \<and> lines g2 = lines g1 \<and>
      level g2 = level g1 \<and> paused g2 = paused g1 \<and> gameOver g2 = gameOver g1 \<and>
      pieceY g2 = pieceY g1"
    by (subst g(3), simp)+
  moreover have "snake h2 = snake h1 \<and> direction h2 = direction h1 \<and> nextDir h2 = nextDir h1 \<and>
      score_s h2 = score_s h1 \<and> length_s h2 = length_s h1"
    by (subst h(3), simp)+
  ultimately show ?thesis using a b g(1,2) h(1,2) by blast
qed

end
